theory Spec2Isabelle
  imports Complex_Main "HOL-Library.Word" "HOL-Library.Monad_Syntax" "HOL-Library.Multiset"
begin

section \<open>Progressive perfect squares: the program of main.cpp\<close>

text \<open>
  The program works on \<open>int64_t\<close> (\<open>i64\<close>) and \<open>size_t\<close> values. Both are modelled as
  64-bit words: arithmetic wraps around, \<open>sint\<close> reads a word as the signed value the
  C++ variable holds, \<open>unat\<close> as the unsigned one. Comparisons of \<open>i64\<close> values are the
  signed ones (\<open><s\<close>, \<open>\<le>s\<close>).
\<close>

type_synonym i64 = "64 word"

subsection \<open>The residue table\<close>

text \<open>
  \<^verbatim>\<open>for (size_t i = 0; i < n; ++i) residues.set((i*i) % n);\<close>
  The bitset is a list of \<open>n\<close> booleans. The product \<open>i*i\<close> is a \<open>size_t\<close>
  product, so it is taken modulo \<open>2 ^ 64\<close> before the reduction modulo \<open>n\<close>.
\<close>

function residues_loop :: "nat \<Rightarrow> nat \<Rightarrow> bool list \<Rightarrow> bool list" where
  "residues_loop n i residues =
     (if i < n
      then residues_loop n (i + 1) (residues[((i * i) mod 2 ^ 64) mod n := True])
      else residues)"
  by pat_completeness auto
termination
  by (relation "measure (\<lambda>(n, i, residues). n - i)") auto

declare residues_loop.simps [simp del]

definition quadratic_residues_mod :: "nat \<Rightarrow> bool list" where
  "quadratic_residues_mod n = residues_loop n 0 (replicate n False)"

definition MODULUS :: nat where
  "MODULUS = 64"

definition quadratic_residues :: "bool list" where
  "quadratic_residues = quadratic_residues_mod MODULUS"

subsection \<open>The square root of the C library, on the values the program gives it\<close>

text \<open>
  \<open>sqrt(n)\<close> converts the \<open>i64\<close> to a \<open>double\<close> (IEEE 754 binary64, 53 significant
  bits), takes the correctly rounded square root and \<open>static_cast<i64>\<close> truncates
  the result. On non-negative integers all three steps are exact integer arithmetic,
  written out below. A negative argument gives NaN, whose conversion to \<open>i64\<close> is
  undefined: the model returns \<open>None\<close> there.
\<close>

fun bit_length :: "nat \<Rightarrow> nat" where
  "bit_length n = (if n = 0 then 0 else Suc (bit_length (n div 2)))"

declare bit_length.simps [simp del]

text \<open>The integer square root \<open>\<lfloor>\<surd>n\<rfloor>\<close>, two bits at a time.\<close>

function isqrt :: "nat \<Rightarrow> nat" where
  "isqrt n =
     (if n < 4 then (if n = 0 then 0 else 1)
      else (let r = 2 * isqrt (n div 4)
            in if (r + 1) * (r + 1) \<le> n then r + 1 else r))"
  by pat_completeness auto
termination
  by (relation "measure (\<lambda>n. n)") auto

declare isqrt.simps [simp del]

text \<open>
  The conversion of a non-negative integer to \<open>double\<close>: the nearest value with 53
  significant bits, ties to the even significand. The result is again an integer.
\<close>

definition to_double :: "nat \<Rightarrow> nat" where
  "to_double n =
     (if bit_length n \<le> 53 then n
      else (let sh = bit_length n - 53;
                q = n div 2 ^ sh;
                r = n mod 2 ^ sh;
                h = 2 ^ (sh - 1)
            in (if h < r \<or> (r = h \<and> odd q) then q + 1 else q) * 2 ^ sh))"

text \<open>
  The correctly rounded binary64 square root of an integer-valued double \<open>d > 0\<close>
  with \<open>4 ^ e \<le> d < 4 ^ (e + 1)\<close> is \<open>m / 2 ^ k\<close>, where \<open>k = 52 - e\<close> and \<open>m\<close> is
  \<open>\<surd>(d * 4 ^ k)\<close> rounded to the nearest integer (a tie cannot occur); the cast to
  \<open>i64\<close> drops the fraction. The arguments are below \<open>2 ^ 64\<close>, so \<open>e \<le> 31\<close>.
\<close>

definition sqrt_double :: "nat \<Rightarrow> nat" where
  "sqrt_double d =
     (if d = 0 then 0
      else (let e = (bit_length d - 1) div 2;
                k = 52 - e;
                N = d * 4 ^ k;
                m0 = isqrt N;
                m = (if m0 * m0 + m0 < N then m0 + 1 else m0)
            in m div 2 ^ k))"

text \<open>\<^verbatim>\<open>static_cast<i64>(sqrt(n))\<close>\<close>

definition sqrt_i64 :: "i64 \<Rightarrow> i64 option" where
  "sqrt_i64 n =
     (if sint n < 0 then None
      else Some (word_of_nat (sqrt_double (to_double (unat n)))))"

subsection \<open>The classifier\<close>

text \<open>
  \<^verbatim>\<open>if (!quadratic_residues[n % MODULUS]) return false;\<close>
  \<open>MODULUS\<close> is a \<open>size_t\<close>, so \<open>n\<close> is converted to \<open>size_t\<close> (the same 64 bits) and
  the remainder is the unsigned one.
\<close>

definition is_perfect_square :: "i64 \<Rightarrow> bool option" where
  "is_perfect_square n =
     (if \<not> quadratic_residues ! (unat n mod MODULUS) then Some False
      else do {
        root \<leftarrow> sqrt_i64 n;
        Some (root * root = n)
      })"

subsection \<open>The generator\<close>

text \<open>\<^verbatim>\<open>return c*c*a*a*a*b + c*b*b;\<close>\<close>

definition compute_candidate :: "i64 \<Rightarrow> i64 \<Rightarrow> i64 \<Rightarrow> i64" where
  "compute_candidate a b c = c * c * a * a * a * b + c * b * b"

text \<open>
  The solution set is an \<open>unordered_set<i64>\<close>: a list without duplicates, where
  \<open>List.insert\<close> leaves the list alone when the element is there already.

  The loop over \<open>c\<close> has no bound in its header: it stops at the \<open>break\<close> only, and
  not returning is the value \<open>None\<close>. The bound \<open>1'000'000'000'000\<close> and the limit
  \<open>10'000\<close> of the loop over \<open>a\<close> are parameters of the loops; \<open>main\<close> fixes them.
\<close>

partial_function (option) inner_loop ::
  "i64 \<Rightarrow> i64 \<Rightarrow> i64 \<Rightarrow> i64 \<Rightarrow> i64 list \<Rightarrow> i64 list option" where
  "inner_loop bound a b c sols =
     (let n = compute_candidate a b c
      in if bound \<le>s n then Some sols
         else do {
           sq \<leftarrow> is_perfect_square n;
           inner_loop bound a b (c + 1) (if sq then List.insert n sols else sols)
         })"

function middle_loop :: "i64 \<Rightarrow> i64 \<Rightarrow> i64 \<Rightarrow> i64 list \<Rightarrow> i64 list option" where
  "middle_loop bound a b sols =
     (if b <s a
      then do {
        sols' \<leftarrow> inner_loop bound a b 1 sols;
        middle_loop bound a (b + 1) sols'
      }
      else Some sols)"
  by pat_completeness auto
termination
proof (relation "measure (\<lambda>(bound, a, b, sols). nat (sint a - sint b))")
  show "wf (measure (\<lambda>(bound, a, b, sols). nat (sint a - sint b)))"
    by simp
next
  fix bound a b :: i64 and sols x2 :: "i64 list"
  assume lt: "b <s a"
  have "sint a < 2 ^ 63"
    using sint_lt [of a] by simp
  with lt have "sint b + 1 < 2 ^ 63" "- (2 ^ 63) \<le> sint b + 1"
    using sint_ge [of b] by (simp_all add: word_sless_alt)
  then have "sint (b + 1) = sint b + 1"
    by (simp add: sint_word_ariths signed_take_bit_int_eq_self)
  with lt show "((bound, a, b + 1, x2), (bound, a, b, sols))
      \<in> measure (\<lambda>(bound, a, b, sols). nat (sint a - sint b))"
    by (simp add: word_sless_alt)
qed

function outer_loop :: "i64 \<Rightarrow> i64 \<Rightarrow> i64 \<Rightarrow> i64 list \<Rightarrow> i64 list option" where
  "outer_loop limit bound a sols =
     (if a <s limit
      then do {
        sols' \<leftarrow> middle_loop bound a 1 sols;
        outer_loop limit bound (a + 1) sols'
      }
      else Some sols)"
  by pat_completeness auto
termination
proof (relation "measure (\<lambda>(limit, bound, a, sols). nat (sint limit - sint a))")
  show "wf (measure (\<lambda>(limit, bound, a, sols). nat (sint limit - sint a)))"
    by simp
next
  fix limit bound a :: i64 and sols x2 :: "i64 list"
  assume lt: "a <s limit"
  have "sint limit < 2 ^ 63"
    using sint_lt [of limit] by simp
  with lt have "sint a + 1 < 2 ^ 63" "- (2 ^ 63) \<le> sint a + 1"
    using sint_ge [of a] by (simp_all add: word_sless_alt)
  then have "sint (a + 1) = sint a + 1"
    by (simp add: sint_word_ariths signed_take_bit_int_eq_self)
  with lt show "((limit, bound, a + 1, x2), (limit, bound, a, sols))
      \<in> measure (\<lambda>(limit, bound, a, sols). nat (sint limit - sint a))"
    by (simp add: word_sless_alt)
qed

declare middle_loop.simps [simp del]

declare outer_loop.simps [simp del]

subsection \<open>Aggregation and output\<close>

text \<open>
  \<open>operator<<\<close> writes an \<open>i64\<close> as its signed decimal digits and \<open>std::endl\<close> as a
  line feed. Standard output is the string of the characters written.
\<close>

definition digit :: "nat \<Rightarrow> char" where
  "digit d = char_of (48 + d)"

function dec_nat :: "nat \<Rightarrow> string" where
  "dec_nat n = (if n < 10 then [digit n] else dec_nat (n div 10) @ [digit (n mod 10)])"
  by pat_completeness auto
termination
  by (relation "measure (\<lambda>n. n)") auto

declare dec_nat.simps [simp del]

definition show_int :: "int \<Rightarrow> string" where
  "show_int i = (if i < 0 then CHR ''-'' # dec_nat (nat (- i)) else dec_nat (nat i))"

definition show_i64 :: "i64 \<Rightarrow> string" where
  "show_i64 w = show_int (sint w)"

definition endl :: string where
  "endl = [CHR 0x0A]"

text \<open>
  \<^verbatim>\<open>for (auto sol : sols) std::cout << (i64)sqrt(sol) << std::endl;\<close>
  over the elements in the order the container yields them.
\<close>

fun print_roots :: "i64 list \<Rightarrow> string option" where
  "print_roots [] = Some []"
| "print_roots (sol # rest) = do {
     root \<leftarrow> sqrt_i64 sol;
     out \<leftarrow> print_roots rest;
     Some (show_i64 root @ endl @ out)
   }"

text \<open>\<^verbatim>\<open>std::accumulate(sols.begin(), sols.end(), 0ll)\<close>: a left fold with \<open>+\<close>.\<close>

fun accumulate :: "i64 list \<Rightarrow> i64 \<Rightarrow> i64" where
  "accumulate [] init = init"
| "accumulate (x # xs) init = accumulate xs (init + x)"

text \<open>
  The iteration order of an \<open>unordered_set\<close> is unspecified: \<open>iteration\<close> is the
  order in which the container yields its elements, the same for both traversals
  (the set is not modified between them). The result is the text written to standard
  output and the exit status.
\<close>

definition main :: "(i64 list \<Rightarrow> i64 list) \<Rightarrow> (string \<times> int) option" where
  "main iteration = do {
     sols \<leftarrow> outer_loop 10000 1000000000000 1 [];
     roots \<leftarrow> print_roots (iteration sols);
     Some (roots @ endl @ show_i64 (accumulate (iteration sols) 0) @ endl, 0)
   }"

subsection \<open>Reading the output back\<close>

text \<open>
  What a text on standard output says: the number a decimal numeral denotes
  (\<open>dec_value\<close> for a string of digits, \<open>read_int\<close> with an optional sign), and the lines of
  a text, each ended by a line feed.
\<close>

definition dec_value :: "string \<Rightarrow> nat" where
  "dec_value s = foldl (\<lambda>v ch. 10 * v + (of_char ch - 48)) 0 s"

definition read_int :: "string \<Rightarrow> int" where
  "read_int s =
     (case s of
        [] \<Rightarrow> 0
      | ch # ds \<Rightarrow> if ch = CHR ''-'' then - int (dec_value ds) else int (dec_value s))"

fun lines_of :: "string \<Rightarrow> string list" where
  "lines_of [] = []"
| "lines_of (ch # s) =
     (if ch = CHR 0x0A then [] # lines_of s
      else (case lines_of s of [] \<Rightarrow> [[ch]] | l # ls \<Rightarrow> (ch # l) # ls))"

section \<open>Exact arithmetic\<close>

text \<open>
  The formula of the candidate over the integers, \<open>n = c\<^sup>2a\<^sup>3b + cb\<^sup>2\<close>, and the perfect
  squares among the integers, decided with the integer square root.
\<close>

definition candidate_value :: "int \<Rightarrow> int \<Rightarrow> int \<Rightarrow> int" where
  "candidate_value a b c = c\<^sup>2 * a ^ 3 * b + c * b\<^sup>2"

definition perfect_square :: "int \<Rightarrow> bool" where
  "perfect_square n = (0 \<le> n \<and> int (isqrt (nat n)) * int (isqrt (nat n)) = n)"

definition i64_range :: "int \<Rightarrow> bool" where
  "i64_range x = (- (2 ^ 63) \<le> x \<and> x < 2 ^ 63)"

text \<open>
  The exact values of the subexpressions of \<open>c*c*a*a*a*b + c*b*b\<close>, in the order C++
  evaluates them (\<open>*\<close> associates to the left).
\<close>

definition candidate_terms :: "int \<Rightarrow> int \<Rightarrow> int \<Rightarrow> int list" where
  "candidate_terms a b c =
     [c * c, c * c * a, c * c * a * a, c * c * a * a * a, c * c * a * a * a * b,
      c * b, c * b * b, c * c * a * a * a * b + c * b * b]"

text \<open>
  The triples the enumeration of \<open>main\<close> reaches: \<open>1 \<le> a < 10\<^sup>4\<close>, \<open>1 \<le> b < a\<close>, and
  \<open>c\<close> from 1 up to and including the first \<open>c\<close> whose candidate is not below
  \<open>10\<^sup>1\<^sup>2\<close>.
\<close>

definition reached :: "int \<Rightarrow> int \<Rightarrow> int \<Rightarrow> bool" where
  "reached a b c =
     (1 \<le> b \<and> b < a \<and> a < 10000 \<and> 1 \<le> c \<and>
      (\<forall>c' \<in> {1..<c}. candidate_value a b c' < 1000000000000))"

text \<open>The invariant of the solution set.\<close>

definition solution_inv :: "i64 list \<Rightarrow> bool" where
  "solution_inv sols =
     (\<forall>n \<in> set sols.
        (\<exists>a b c. b < a \<and> 1 \<le> b \<and> 1 \<le> c \<and> sint n = candidate_value a b c) \<and>
        (\<exists>k. sint n = k * k) \<and>
        sint n < 1000000000000)"

text \<open>
  The progressive perfect squares below a bound with \<open>2 \<le> a \<le> amax\<close>, listed by
  exhaustive search: for each \<open>a\<close> the values \<open>b \<le> min (a - 1) (bound / a\<^sup>3)\<close>, and for
  each \<open>b\<close> the values \<open>c \<le> \<lfloor>\<surd>(bound / (a\<^sup>3b))\<rfloor>\<close> are tried.
\<close>

fun scan_c :: "int \<Rightarrow> int \<Rightarrow> int \<Rightarrow> int list \<Rightarrow> int list" where
  "scan_c bound a b [] = []"
| "scan_c bound a b (c # cs) =
     (let n = candidate_value a b c
      in if n < bound \<and> perfect_square n then n # scan_c bound a b cs
         else scan_c bound a b cs)"

fun scan_b :: "int \<Rightarrow> int \<Rightarrow> int list \<Rightarrow> int list" where
  "scan_b bound a [] = []"
| "scan_b bound a (b # bs) =
     scan_c bound a b [1..int (isqrt (nat (bound div (a * a * a * b))))] @ scan_b bound a bs"

fun scan_a :: "int \<Rightarrow> int list \<Rightarrow> int list" where
  "scan_a bound [] = []"
| "scan_a bound (a # as) =
     scan_b bound a [1..min (a - 1) (bound div (a * a * a))] @ scan_a bound as"

definition squares_below :: "int \<Rightarrow> int \<Rightarrow> int list" where
  "squares_below amax bound = scan_a bound [2..amax]"

section \<open>Verification\<close>

lemma isqrt_small: "n < 4 \<Longrightarrow> isqrt n = (if n = 0 then 0 else 1)"
  by (subst isqrt.simps) simp

lemma bit_length_0: "bit_length 0 = 0"
  by (subst bit_length.simps) simp

lemma bit_length_pos: "0 < n \<Longrightarrow> bit_length n = Suc (bit_length (n div 2))"
  by (subst bit_length.simps) simp

lemma isqrt_bounds: "isqrt n * isqrt n \<le> n \<and> n < (isqrt n + 1) * (isqrt n + 1)"
proof (induction n rule: isqrt.induct)
  case (1 n)
  show ?case
  proof (cases "n < 4")
    case True
    then have "n = 0 \<or> n = 1 \<or> n = 2 \<or> n = 3" by arith
    with True show ?thesis by (auto simp: isqrt_small)
  next
    case False
    define s where "s = isqrt (n div 4)"
    from 1 False have ih: "s * s \<le> n div 4" "n div 4 < (s + 1) * (s + 1)"
      by (simp_all add: s_def)
    have lo: "(2 * s) * (2 * s) \<le> n"
    proof -
      have "4 * (s * s) \<le> 4 * (n div 4)" using ih(1) by simp
      also have "\<dots> \<le> n" by simp
      finally show ?thesis by (simp add: algebra_simps)
    qed
    have hi: "n < (2 * s + 2) * (2 * s + 2)"
    proof -
      have "n div 4 + 1 \<le> (s + 1) * (s + 1)" using ih(2) by simp
      then have "4 * (n div 4 + 1) \<le> 4 * ((s + 1) * (s + 1))" by simp
      moreover have "n < 4 * (n div 4 + 1)" by simp
      ultimately show ?thesis by (simp add: algebra_simps)
    qed
    have eq: "isqrt n = (if (2 * s + 1) * (2 * s + 1) \<le> n then 2 * s + 1 else 2 * s)"
      using False by (subst isqrt.simps) (simp add: s_def Let_def)
    show ?thesis
    proof (cases "(2 * s + 1) * (2 * s + 1) \<le> n")
      case True
      with eq hi show ?thesis by (simp add: algebra_simps)
    next
      case False
      with eq lo show ?thesis by (simp add: algebra_simps)
    qed
  qed
qed

lemma isqrt_unique:
  assumes "s * s \<le> n" "n < (s + 1) * (s + 1)"
  shows "isqrt n = s"
proof -
  let ?r = "isqrt n"
  have b: "?r * ?r \<le> n" "n < (?r + 1) * (?r + 1)" using isqrt_bounds by auto
  have "\<not> s < ?r"
  proof
    assume "s < ?r"
    then have "s + 1 \<le> ?r" by simp
    from this this have "(s + 1) * (s + 1) \<le> ?r * ?r" by (rule mult_le_mono)
    with b(1) assms(2) show False by simp
  qed
  moreover have "\<not> ?r < s"
  proof
    assume "?r < s"
    then have "?r + 1 \<le> s" by simp
    from this this have "(?r + 1) * (?r + 1) \<le> s * s" by (rule mult_le_mono)
    with b(2) assms(1) show False by simp
  qed
  ultimately show ?thesis by simp
qed

lemma isqrt_square: "isqrt (k * k) = k"
  by (rule isqrt_unique) simp_all

lemma bit_length_bound: "n < 2 ^ m \<Longrightarrow> bit_length n \<le> m"
proof (induction n arbitrary: m rule: bit_length.induct)
  case (1 n)
  show ?case
  proof (cases "n = 0")
    case True
    then show ?thesis by (simp add: bit_length_0)
  next
    case False
    with 1(2) obtain m' where m: "m = Suc m'"
      by (cases m) auto
    with 1(2) have "n div 2 < 2 ^ m'" by auto
    with 1(1) False have "bit_length (n div 2) \<le> m'" by blast
    with False m show ?thesis by (simp add: bit_length_pos)
  qed
qed

lemma bit_length_lower: "0 < n \<Longrightarrow> 2 ^ (bit_length n - 1) \<le> n"
proof (induction n rule: bit_length.induct)
  case (1 n)
  show ?case
  proof (cases "n div 2 = 0")
    case True
    with 1(2) have "n = 1" by auto
    then show ?thesis by (simp add: bit_length_pos bit_length_0)
  next
    case False
    with 1 have ih: "2 ^ (bit_length (n div 2) - 1) \<le> n div 2" by simp
    have pos: "0 < bit_length (n div 2)" using False by (simp add: bit_length_pos)
    have "bit_length n = Suc (bit_length (n div 2))"
      using 1(2) by (simp add: bit_length_pos)
    then have "(2::nat) ^ (bit_length n - 1) = 2 * 2 ^ (bit_length (n div 2) - 1)"
      using pos by (cases "bit_length (n div 2)") simp_all
    also have "\<dots> \<le> 2 * (n div 2)" using ih by simp
    also have "\<dots> \<le> n" by simp
    finally show ?thesis .
  qed
qed

lemma bit_length_upper: "n < 2 ^ bit_length n"
proof (induction n rule: bit_length.induct)
  case (1 n)
  show ?case
  proof (cases "n = 0")
    case True
    then show ?thesis by simp
  next
    case False
    with 1 have "n div 2 < 2 ^ bit_length (n div 2)" by simp
    then have "n < 2 * 2 ^ bit_length (n div 2)" by simp
    with False show ?thesis by (simp add: bit_length_pos)
  qed
qed

lemma isqrt_less: "n < t * t \<Longrightarrow> isqrt n < t"
proof (rule ccontr)
  assume a: "n < t * t" and "\<not> isqrt n < t"
  then have "t \<le> isqrt n" by simp
  from this this have "t * t \<le> isqrt n * isqrt n" by (rule mult_le_mono)
  with isqrt_bounds [of n] a show False by simp
qed

lemma isqrt_ge: "t * t \<le> n \<Longrightarrow> t \<le> isqrt n"
proof (rule ccontr)
  assume a: "t * t \<le> n" and "\<not> t \<le> isqrt n"
  then have "isqrt n + 1 \<le> t" by simp
  from this this have "(isqrt n + 1) * (isqrt n + 1) \<le> t * t" by (rule mult_le_mono)
  with isqrt_bounds [of n] a show False by simp
qed

lemma sqrt_double_exact:
  assumes "d < 2 ^ 52"
  shows "sqrt_double d = isqrt d"
proof (cases "d = 0")
  case True
  then show ?thesis by (simp add: sqrt_double_def isqrt_small)
next
  case False
  define e where "e = (bit_length d - 1) div 2"
  define k where "k = 52 - e"
  define K :: nat where "K = 2 ^ k"
  define N where "N = d * 4 ^ k"
  define s where "s = isqrt d"
  define m0 where "m0 = isqrt N"
  define M where "M = (s + 1) * K"
  have L: "bit_length d \<le> 52" using assms by (rule bit_length_bound)
  then have e: "e \<le> 25" by (simp add: e_def)
  then have k: "e + 1 \<le> k" by (simp add: k_def)
  have K4: "K * K = 4 ^ k"
    by (simp add: K_def power_mult_distrib [symmetric])
  have Kpos: "0 < K" by (simp add: K_def)
  have d_hi: "d < 2 ^ (e + 1) * 2 ^ (e + 1)"
  proof -
    have "bit_length d \<le> 2 * e + 2" by (simp add: e_def)
    then have "(2::nat) ^ bit_length d \<le> 2 ^ (2 * e + 2)"
      by (intro power_increasing) simp_all
    with bit_length_upper [of d] have "d < 2 ^ (2 * e + 2)" by simp
    also have "(2::nat) ^ (2 * e + 2) = 2 ^ (e + 1) * 2 ^ (e + 1)"
      by (simp add: power_add [symmetric])
    finally show ?thesis .
  qed
  have s_lt: "s < 2 ^ (e + 1)" unfolding s_def using d_hi by (rule isqrt_less)
  have "(2::nat) ^ (e + 1) \<le> 2 ^ k" using k by (intro power_increasing) simp_all
  with s_lt have sK: "s + 1 \<le> K" by (simp add: K_def)
  have s_lo: "s * s \<le> d" and s_hi: "d < (s + 1) * (s + 1)"
    using isqrt_bounds [of d] by (simp_all add: s_def)
  have N_lo: "(s * K) * (s * K) \<le> N"
  proof -
    have "(s * K) * (s * K) = (s * s) * (K * K)" by (simp add: algebra_simps)
    also have "\<dots> \<le> d * (K * K)" using s_lo by (rule mult_le_mono1)
    finally show ?thesis by (simp add: N_def K4)
  qed
  have N_hi: "N + K * K \<le> M * M"
  proof -
    have "d + 1 \<le> (s + 1) * (s + 1)" using s_hi by simp
    then have "(d + 1) * (K * K) \<le> ((s + 1) * (s + 1)) * (K * K)" by (rule mult_le_mono1)
    moreover have "N = d * (K * K)" by (simp add: N_def K4)
    moreover have "M * M = ((s + 1) * (s + 1)) * (K * K)" by (simp add: M_def algebra_simps)
    ultimately show ?thesis by (simp add: algebra_simps)
  qed
  have m0_lo: "s * K \<le> m0" unfolding m0_def using N_lo by (rule isqrt_ge)
  have "N < M * M" using N_hi Kpos
    by (metis add_lessD1 less_add_same_cancel1 mult_pos_pos order_less_le_trans)
  then have m0_hi: "m0 < M" unfolding m0_def by (rule isqrt_less)
  define m where "m = (if m0 * m0 + m0 < N then m0 + 1 else m0)"
  have m_lo: "s * K \<le> m" using m0_lo by (simp add: m_def)
  have m_hi: "m < M"
  proof (cases "m0 * m0 + m0 < N")
    case False
    with m0_hi show ?thesis by (simp add: m_def)
  next
    case True
    have "m0 + 1 \<noteq> M"
    proof
      assume eq: "m0 + 1 = M"
      have "M * M = m0 * m0 + m0 + M" using eq [symmetric] by (simp add: algebra_simps)
      also have "\<dots> < N + M" using True by simp
      finally have "M * M < N + M" .
      with N_hi have "K * K < M" by simp
      moreover have "M \<le> K * K" unfolding M_def using sK by (rule mult_le_mono1)
      ultimately show False by simp
    qed
    with m0_hi True show ?thesis by (simp add: m_def)
  qed
  have "m div K = s"
  proof -
    have "m div K < s + 1" using m_hi Kpos
      by (simp add: M_def less_mult_imp_div_less)
    moreover have "s \<le> m div K" using m_lo Kpos
      by (metis div_le_mono nonzero_mult_div_cancel_right less_numeral_extra(3))
    ultimately show ?thesis by simp
  qed
  moreover have "sqrt_double d = m div K"
    using False by (simp add: sqrt_double_def Let_def e_def k_def K_def N_def m0_def m_def)
  ultimately show ?thesis by (simp add: s_def)
qed

lemma to_double_exact: "n < 2 ^ 53 \<Longrightarrow> to_double n = n"
  by (simp add: to_double_def bit_length_bound)

lemma perfect_square_iff: "perfect_square n \<longleftrightarrow> (\<exists>k. n = k * k)"
proof
  assume "perfect_square n"
  then show "\<exists>k. n = k * k" unfolding perfect_square_def by metis
next
  assume "\<exists>k. n = k * k"
  then obtain k where k: "n = k * k" by blast
  define j where "j = nat \<bar>k\<bar>"
  have n: "n = int (j * j)" by (simp add: k j_def)
  then have "nat n = j * j" by (simp add: nat_mult_distrib)
  then have "isqrt (nat n) = j" by (simp add: isqrt_square)
  with n show "perfect_square n" by (simp add: perfect_square_def)
qed

lemma perfect_square_floor_sqrt:
  assumes "0 \<le> n"
  shows "perfect_square n \<longleftrightarrow> \<lfloor>sqrt (real_of_int n)\<rfloor> ^ 2 = n"
proof -
  define s where "s = isqrt (nat n)"
  have "int (s * s) \<le> int (nat n)" and "int (nat n) < int ((s + 1) * (s + 1))"
    using isqrt_bounds [of "nat n"] unfolding s_def by (simp_all only: of_nat_le_iff of_nat_less_iff)
  then have lo: "int s * int s \<le> n" and hi: "n < (int s + 1) * (int s + 1)"
    using assms by (simp_all add: algebra_simps)
  have "\<lfloor>sqrt (real_of_int n)\<rfloor> = int s"
  proof (rule floor_unique)
    have "real_of_int (int s * int s) \<le> real_of_int n" using lo by linarith
    then have "(real s)\<^sup>2 \<le> real_of_int n" by (simp add: power2_eq_square)
    then show "real_of_int (int s) \<le> sqrt (real_of_int n)"
      by (simp add: real_le_rsqrt)
    have "real_of_int n < real_of_int ((int s + 1) * (int s + 1))" using hi by linarith
    then have "real_of_int n < (real s + 1)\<^sup>2" by (simp add: power2_eq_square)
    then show "sqrt (real_of_int n) < real_of_int (int s) + 1"
      by (simp add: real_less_lsqrt)
  qed
  then show ?thesis using assms by (simp add: perfect_square_def s_def power2_eq_square)
qed

lemma sint_of_int_i64:
  "- (2 ^ 63) \<le> x \<Longrightarrow> x < 2 ^ 63 \<Longrightarrow> sint (word_of_int x :: i64) = x"
  by (simp add: sint_sbintrunc' signed_take_bit_int_eq_self)

lemma unat_of_int_i64:
  assumes "0 \<le> x" "x < 2 ^ 64"
  shows "unat (word_of_int x :: i64) = nat x"
proof -
  have lt: "nat x < 2 ^ 64" using assms by (simp add: nat_less_iff)
  have "word_of_int x = (word_of_nat (nat x) :: i64)"
    using assms(1) by (rule word_of_int_nat)
  then have "unat (word_of_int x :: i64) = unat (word_of_nat (nat x) :: i64)"
    by (rule arg_cong)
  also have "\<dots> = nat x mod 2 ^ LENGTH(64)"
    by (rule unat_of_nat)
  also have "\<dots> = nat x"
    using lt by simp
  finally show ?thesis .
qed

lemma candidate_value_expand: "candidate_value a b c = c * c * a * a * a * b + c * b * b"
  by (simp add: candidate_value_def power2_eq_square power3_eq_cube algebra_simps)

lemma compute_candidate_of_int:
  "compute_candidate (word_of_int a) (word_of_int b) (word_of_int c)
     = word_of_int (candidate_value a b c)"
  by (simp add: compute_candidate_def candidate_value_expand)

lemma residues_loop_length: "length (residues_loop n i rs) = length rs"
proof (induction n i rs rule: residues_loop.induct)
  case (1 n i rs)
  then show ?case by (subst residues_loop.simps) simp
qed

lemma residues_loop_nth:
  "length rs = n \<Longrightarrow> j < n \<Longrightarrow>
   residues_loop n i rs ! j \<longleftrightarrow> rs ! j \<or> (\<exists>t. i \<le> t \<and> t < n \<and> j = ((t * t) mod 2 ^ 64) mod n)"
proof (induction n i rs rule: residues_loop.induct)
  case (1 n i rs)
  show ?case
  proof (cases "i < n")
    case False
    then show ?thesis by (subst residues_loop.simps) auto
  next
    case True
    let ?p = "((i * i) mod 2 ^ 64) mod n"
    have "residues_loop n i rs ! j = residues_loop n (i + 1) (rs[?p := True]) ! j"
      using True by (subst residues_loop.simps) simp
    also have "\<dots> \<longleftrightarrow> rs[?p := True] ! j
        \<or> (\<exists>t. i + 1 \<le> t \<and> t < n \<and> j = ((t * t) mod 2 ^ 64) mod n)"
      using 1 True by simp
    also have "rs[?p := True] ! j \<longleftrightarrow> rs ! j \<or> j = ?p"
      using 1(2,3) by (auto simp: nth_list_update)
    also have "(rs ! j \<or> j = ?p) \<or> (\<exists>t. i + 1 \<le> t \<and> t < n \<and> j = ((t * t) mod 2 ^ 64) mod n)
        \<longleftrightarrow> rs ! j \<or> (\<exists>t. i \<le> t \<and> t < n \<and> j = ((t * t) mod 2 ^ 64) mod n)"
    proof -
      have "(\<exists>t. i \<le> t \<and> t < n \<and> j = ((t * t) mod 2 ^ 64) mod n) \<longleftrightarrow>
          j = ?p \<or> (\<exists>t. i + 1 \<le> t \<and> t < n \<and> j = ((t * t) mod 2 ^ 64) mod n)"
        (is "?L \<longleftrightarrow> ?R")
      proof
        assume ?L
        then obtain t where t: "i \<le> t" "t < n" "j = ((t * t) mod 2 ^ 64) mod n" by blast
        show ?R
        proof (cases "t = i")
          case True
          with t show ?thesis by simp
        next
          case False
          with t have "i + 1 \<le> t" by simp
          with t show ?thesis by blast
        qed
      next
        assume ?R
        then show ?L
        proof
          assume "j = ?p"
          with True show ?L by blast
        next
          assume "\<exists>t. i + 1 \<le> t \<and> t < n \<and> j = ((t * t) mod 2 ^ 64) mod n"
          then obtain t where "i + 1 \<le> t" "t < n" "j = ((t * t) mod 2 ^ 64) mod n" by blast
          then have "i \<le> t \<and> t < n \<and> j = ((t * t) mod 2 ^ 64) mod n" by simp
          then show ?L by blast
        qed
      qed
      then show ?thesis by blast
    qed
    finally show ?thesis .
  qed
qed

lemma quadratic_residues_nth:
  assumes "j < 64"
  shows "quadratic_residues ! j \<longleftrightarrow> (\<exists>t<64. j = (t * t) mod 64)"
proof -
  have "quadratic_residues ! j \<longleftrightarrow>
      (\<exists>t. 0 \<le> t \<and> t < 64 \<and> j = ((t * t) mod 2 ^ 64) mod 64)"
    unfolding quadratic_residues_def quadratic_residues_mod_def MODULUS_def
    using assms by (subst residues_loop_nth) simp_all
  also have "\<dots> \<longleftrightarrow> (\<exists>t<64. j = (t * t) mod 64)"
  proof -
    have "((t * t) mod 2 ^ 64) mod 64 = (t * t) mod 64" for t :: nat
      by (rule mod_mod_cancel) simp
    then show ?thesis by simp
  qed
  finally show ?thesis .
qed

lemma quadratic_residues_square: "quadratic_residues ! ((k * k) mod 64)"
proof -
  have "(k * k) mod 64 = ((k mod 64) * (k mod 64)) mod 64"
    by (simp add: mod_mult_eq)
  moreover have "k mod 64 < 64" by simp
  ultimately show ?thesis
    by (subst quadratic_residues_nth) (simp, blast)
qed

lemma perfect_square_nat: "perfect_square n \<Longrightarrow> \<exists>j. nat n = j * j"
  unfolding perfect_square_def
  by (metis nat_int nat_mult_distrib of_nat_0_le_iff)

lemma sqrt_i64_exact:
  assumes "0 \<le> n" "n < 2 ^ 52"
  shows "sqrt_i64 (word_of_int n) = Some (word_of_nat (isqrt (nat n)))"
proof -
  have s: "sint (word_of_int n :: i64) = n"
    using assms by (intro sint_of_int_i64) simp_all
  have u: "unat (word_of_int n :: i64) = nat n"
    using assms by (intro unat_of_int_i64) simp_all
  have lt: "nat n < 2 ^ 52" using assms by (simp add: nat_less_iff)
  then have "nat n < 2 ^ 53" by simp
  then have "to_double (nat n) = nat n" by (rule to_double_exact)
  moreover have "sqrt_double (nat n) = isqrt (nat n)" using lt by (rule sqrt_double_exact)
  ultimately show ?thesis using assms(1) by (simp add: sqrt_i64_def s u)
qed

lemma root_check_exact:
  assumes "0 \<le> n" "n < 2 ^ 52"
  shows "(word_of_nat (isqrt (nat n)) :: i64) * word_of_nat (isqrt (nat n)) = word_of_int n
    \<longleftrightarrow> perfect_square n"
proof -
  define s where "s = isqrt (nat n)"
  have le: "s * s \<le> nat n" using isqrt_bounds [of "nat n"] by (simp add: s_def)
  have lt: "nat n < 2 ^ 64"
  proof -
    have "n < 2 ^ 64" using assms(2) by simp
    then show ?thesis using assms(1) by (simp add: nat_less_iff)
  qed
  with le have lt2: "s * s < 2 ^ 64" by simp
  have "(word_of_nat s :: i64) * word_of_nat s = word_of_nat (s * s)" by simp
  moreover have "(word_of_int n :: i64) = word_of_nat (nat n)"
    using assms(1) by (rule word_of_int_nat)
  ultimately have "(word_of_nat s :: i64) * word_of_nat s = word_of_int n
      \<longleftrightarrow> (word_of_nat (s * s) :: i64) = word_of_nat (nat n)" by simp
  also have "\<dots> \<longleftrightarrow> take_bit 64 (s * s) = take_bit 64 (nat n)"
    using word_of_nat_eq_iff [where ?'a = 64, of "s * s" "nat n"] by simp
  also have "\<dots> \<longleftrightarrow> s * s = nat n"
    using lt lt2 by (simp add: take_bit_nat_eq_self)
  also have "\<dots> \<longleftrightarrow> int s * int s = n"
    using assms(1) by (metis nat_int of_nat_mult int_nat_eq)
  also have "\<dots> \<longleftrightarrow> perfect_square n"
    using assms(1) by (simp add: perfect_square_def s_def)
  finally show ?thesis by (simp add: s_def)
qed

lemma is_perfect_square_exact:
  assumes "0 \<le> n" "n < 2 ^ 52"
  shows "is_perfect_square (word_of_int n) = Some (perfect_square n)"
proof -
  have u: "unat (word_of_int n :: i64) = nat n"
    using assms by (intro unat_of_int_i64) simp_all
  show ?thesis
  proof (cases "quadratic_residues ! (nat n mod 64)")
    case True
    then show ?thesis
      using sqrt_i64_exact [OF assms] root_check_exact [OF assms]
      by (simp add: is_perfect_square_def u MODULUS_def)
  next
    case False
    have "\<not> perfect_square n"
    proof
      assume "perfect_square n"
      then obtain j where "nat n = j * j" using perfect_square_nat by blast
      with quadratic_residues_square [of j] False show False by simp
    qed
    with False show ?thesis by (simp add: is_perfect_square_def u MODULUS_def)
  qed
qed

lemma candidate_value_factor:
  "candidate_value a b c = c * (c * (a * a * a * b) + b * b)"
  by (simp add: candidate_value_expand algebra_simps)

lemma one_le_square:
  fixes c :: int
  assumes "1 \<le> c"
  shows "1 \<le> c * c"
proof -
  have "1 * 1 \<le> c * c" using assms by (intro mult_mono) simp_all
  then show ?thesis by simp
qed

lemma candidate_value_pos:
  assumes "1 \<le> a" "1 \<le> b" "1 \<le> c"
  shows "c \<le> candidate_value a b c"
proof -
  have "0 < a * a * a * b" using assms by simp
  then have "0 \<le> c * (a * a * a * b)" using assms by simp
  moreover have "1 \<le> b * b" using assms(2) by (rule one_le_square)
  ultimately have "1 \<le> c * (a * a * a * b) + b * b" by linarith
  then have "c * 1 \<le> c * (c * (a * a * a * b) + b * b)"
    using assms(3) by (intro mult_left_mono) simp_all
  then show ?thesis by (simp add: candidate_value_factor)
qed

lemma candidate_value_mono:
  assumes "1 \<le> a" "1 \<le> b" "1 \<le> c" "c < c'"
  shows "candidate_value a b c < candidate_value a b c'"
proof -
  have p: "0 < a * a * a * b" using assms by simp
  have q: "0 < b * b" using assms by simp
  have "c * (a * a * a * b) < c' * (a * a * a * b)"
    using assms p by simp
  then have "c * (a * a * a * b) + b * b < c' * (a * a * a * b) + b * b" by simp
  moreover have "0 < c * (a * a * a * b) + b * b"
    using assms p q by (simp add: add_nonneg_pos)
  ultimately have "c * (c * (a * a * a * b) + b * b) < c' * (c' * (a * a * a * b) + b * b)"
    using assms by (intro mult_strict_mono) simp_all
  then show ?thesis by (simp add: candidate_value_factor)
qed

lemma candidate_value_mono_le:
  assumes "1 \<le> a" "1 \<le> b" "1 \<le> c" "c \<le> c'"
  shows "candidate_value a b c \<le> candidate_value a b c'"
  using candidate_value_mono [OF assms(1-3), of c'] assms(4)
  by (cases "c = c'") simp_all

lemma candidate_value_next:
  assumes "1 \<le> a" "1 \<le> b" "1 \<le> c"
  shows "candidate_value a b (c + 1) \<le> 4 * candidate_value a b c"
proof -
  have p: "0 \<le> a * a * a * b" using assms by simp
  have q: "0 \<le> b * b" by simp
  have c1: "c + 1 \<le> 2 * c" using assms by simp
  then have "(c + 1) * (c + 1) \<le> (2 * c) * (2 * c)"
    using assms by (intro mult_mono) simp_all
  then have "(c + 1) * (c + 1) * (a * a * a * b) \<le> (2 * c) * (2 * c) * (a * a * a * b)"
    using p by (rule mult_right_mono)
  moreover have "(c + 1) * (b * b) \<le> (2 * c) * (b * b)"
    using c1 q by (rule mult_right_mono)
  moreover have "0 \<le> c * (b * b)" using assms by simp
  ultimately have "(c + 1) * (c + 1) * (a * a * a * b) + (c + 1) * (b * b)
      \<le> 4 * (c * c * (a * a * a * b) + c * (b * b))"
    by (simp add: algebra_simps)
  then show ?thesis by (simp add: candidate_value_expand algebra_simps)
qed

lemma candidate_value_ge_cube:
  assumes "1 \<le> a" "1 \<le> b" "1 \<le> c"
  shows "a * a * a \<le> candidate_value a b c"
proof -
  have "1 \<le> c * c" using assms(3) by (rule one_le_square)
  then have "1 * 1 \<le> c * c * b" using assms(2) by (intro mult_mono) simp_all
  then have "1 * (a * a * a) \<le> (c * c * b) * (a * a * a)"
    using assms(1) by (intro mult_right_mono) simp_all
  moreover have "0 \<le> c * (b * b)" using assms by simp
  ultimately show ?thesis by (simp add: candidate_value_expand algebra_simps)
qed

lemma candidate_value_first:
  assumes "1 \<le> b" "b < a" "a \<le> 10000"
  shows "candidate_value a b 1 < 2 ^ 63"
proof -
  have a: "0 \<le> a" "0 \<le> b" using assms by simp_all
  have "a * a \<le> 10000 * 10000" using assms a by (intro mult_mono) simp_all
  then have "a * a * a \<le> (10000 * 10000) * 10000" using assms a by (intro mult_mono) simp_all
  then have "a * a * a * b \<le> ((10000 * 10000) * 10000) * 10000"
    using assms a by (intro mult_mono) simp_all
  moreover have "b * b \<le> 10000 * 10000" using assms a by (intro mult_mono) simp_all
  ultimately have "a * a * a * b + b * b \<le> 10000000100000000" by simp
  then show ?thesis by (simp add: candidate_value_expand)
qed

lemma inner_loop_result:
  assumes "1 \<le> A" "1 \<le> B" "1 \<le> C" "0 \<le> BOUND" "BOUND \<le> 2 ^ 52"
    and "candidate_value A B C < 2 ^ 63"
  shows "\<exists>sols'. inner_loop (word_of_int BOUND) (word_of_int A) (word_of_int B) (word_of_int C) sols
        = Some sols'
      \<and> sint ` set sols' = sint ` set sols \<union>
          {n. \<exists>c. C \<le> c \<and> n = candidate_value A B c \<and> n < BOUND \<and> perfect_square n}
      \<and> (distinct sols \<longrightarrow> distinct sols')"
  using assms
proof (induction "nat (BOUND - C)" arbitrary: C sols rule: less_induct)
  case less
  define E where "E = candidate_value A B C"
  have CE: "C \<le> E"
    unfolding E_def using less.prems(1-3) by (rule candidate_value_pos)
  have E63: "E < 2 ^ 63" using less.prems(6) by (simp add: E_def)
  have sE: "sint (word_of_int E :: i64) = E"
    using CE less.prems(3) E63 by (intro sint_of_int_i64) simp_all
  have sB: "sint (word_of_int BOUND :: i64) = BOUND"
    using less.prems(4,5) by (intro sint_of_int_i64) simp_all
  have cc: "compute_candidate (word_of_int A) (word_of_int B) (word_of_int C) = word_of_int E"
    by (simp add: compute_candidate_of_int E_def)
  show ?case
  proof (cases "BOUND \<le> E")
    case True
    have run: "inner_loop (word_of_int BOUND) (word_of_int A) (word_of_int B) (word_of_int C) sols
        = Some sols"
      using True by (subst inner_loop.simps) (simp add: cc word_sle_eq sE sB)
    have none: "{n. \<exists>c. C \<le> c \<and> n = candidate_value A B c \<and> n < BOUND \<and> perfect_square n} = {}"
    proof -
      have "BOUND \<le> candidate_value A B c" if "C \<le> c" for c
        using candidate_value_mono_le [OF less.prems(1-3) that] True by (simp add: E_def)
      then show ?thesis by fastforce
    qed
    show ?thesis unfolding none run by simp
  next
    case False
    then have EB: "E < BOUND" by simp
    have E52: "E < 2 ^ 52" using EB less.prems(5) by simp
    have E0: "0 \<le> E" using CE less.prems(3) by simp
    have ps: "is_perfect_square (word_of_int E) = Some (perfect_square E)"
      using E0 E52 by (rule is_perfect_square_exact)
    define sols1 where
      "sols1 = (if perfect_square E then List.insert (word_of_int E) sols else sols)"
    have step: "inner_loop (word_of_int BOUND) (word_of_int A) (word_of_int B) (word_of_int C) sols
        = inner_loop (word_of_int BOUND) (word_of_int A) (word_of_int B) (word_of_int (C + 1)) sols1"
      using False by (subst inner_loop.simps) (simp add: cc word_sle_eq sE sB ps sols1_def)
    have nxt: "candidate_value A B (C + 1) < 2 ^ 63"
    proof -
      have "candidate_value A B (C + 1) \<le> 4 * E"
        unfolding E_def using less.prems(1-3) by (rule candidate_value_next)
      with E52 show ?thesis by simp
    qed
    have meas: "nat (BOUND - (C + 1)) < nat (BOUND - C)"
      using CE EB by simp
    have C1: "1 \<le> C + 1" using less.prems(3) by simp
    from less.hyps [OF meas less.prems(1,2) C1 less.prems(4,5) nxt, of sols1]
    obtain sols' where
      run: "inner_loop (word_of_int BOUND) (word_of_int A) (word_of_int B) (word_of_int (C + 1)) sols1
          = Some sols'"
      and img: "sint ` set sols' = sint ` set sols1 \<union>
          {n. \<exists>c. C + 1 \<le> c \<and> n = candidate_value A B c \<and> n < BOUND \<and> perfect_square n}"
      and dist: "distinct sols1 \<longrightarrow> distinct sols'"
      by blast
    have set1: "sint ` set sols1 = sint ` set sols \<union> (if perfect_square E then {E} else {})"
      by (simp add: sols1_def sE)
    have split: "{n. \<exists>c. C \<le> c \<and> n = candidate_value A B c \<and> n < BOUND \<and> perfect_square n}
        = (if perfect_square E then {E} else {}) \<union>
          {n. \<exists>c. C + 1 \<le> c \<and> n = candidate_value A B c \<and> n < BOUND \<and> perfect_square n}"
      (is "?L = ?M \<union> ?R")
    proof (intro set_eqI iffI)
      fix n assume "n \<in> ?L"
      then obtain c where c: "C \<le> c" "n = candidate_value A B c" "n < BOUND" "perfect_square n"
        by blast
      show "n \<in> ?M \<union> ?R"
      proof (cases "c = C")
        case True
        with c show ?thesis by (simp add: E_def)
      next
        case False
        with c(1) have "C + 1 \<le> c" by simp
        with c show ?thesis by blast
      qed
    next
      fix n assume "n \<in> ?M \<union> ?R"
      then show "n \<in> ?L"
      proof
        assume "n \<in> ?M"
        then have "n = E" "perfect_square E" by (simp_all split: if_splits)
        with EB show ?thesis unfolding E_def by blast
      next
        assume "n \<in> ?R"
        then obtain c where "C + 1 \<le> c" "n = candidate_value A B c" "n < BOUND" "perfect_square n"
          by blast
        then have "C \<le> c \<and> n = candidate_value A B c \<and> n < BOUND \<and> perfect_square n" by simp
        then show ?thesis by blast
      qed
    qed
    have d1: "distinct sols \<longrightarrow> distinct sols1" by (simp add: sols1_def)
    show ?thesis
    proof (intro exI conjI)
      show "inner_loop (word_of_int BOUND) (word_of_int A) (word_of_int B) (word_of_int C) sols
          = Some sols'"
        using step run by simp
      show "sint ` set sols' = sint ` set sols \<union>
          {n. \<exists>c. C \<le> c \<and> n = candidate_value A B c \<and> n < BOUND \<and> perfect_square n}"
        unfolding split img set1 by (simp add: Un_assoc)
      show "distinct sols \<longrightarrow> distinct sols'"
        using dist d1 by simp
    qed
  qed
qed

lemma middle_loop_result:
  assumes "1 \<le> B" "B \<le> A" "A \<le> 10000" "0 \<le> BOUND" "BOUND \<le> 2 ^ 52"
  shows "\<exists>sols'. middle_loop (word_of_int BOUND) (word_of_int A) (word_of_int B) sols = Some sols'
      \<and> sint ` set sols' = sint ` set sols \<union>
          {n. \<exists>b c. B \<le> b \<and> b < A \<and> 1 \<le> c \<and> n = candidate_value A b c
                \<and> n < BOUND \<and> perfect_square n}
      \<and> (distinct sols \<longrightarrow> distinct sols')"
  using assms
proof (induction "nat (A - B)" arbitrary: B sols rule: less_induct)
  case less
  have sA: "sint (word_of_int A :: i64) = A"
    using less.prems(1-3) by (intro sint_of_int_i64) simp_all
  have sB: "sint (word_of_int B :: i64) = B"
    using less.prems(1-3) by (intro sint_of_int_i64) simp_all
  show ?case
  proof (cases "B < A")
    case False
    with less.prems(2) have BA: "B = A" by simp
    have run: "middle_loop (word_of_int BOUND) (word_of_int A) (word_of_int B) sols = Some sols"
      using False by (subst middle_loop.simps) (simp add: word_sless_alt sA sB)
    have none: "{n. \<exists>b c. B \<le> b \<and> b < A \<and> 1 \<le> c \<and> n = candidate_value A b c
                \<and> n < BOUND \<and> perfect_square n} = {}"
      using BA by auto
    show ?thesis unfolding none run by simp
  next
    case True
    have A1: "1 \<le> A" using less.prems(1,2) by simp
    have first: "candidate_value A B 1 < 2 ^ 63"
      using less.prems(1) True less.prems(3) by (rule candidate_value_first)
    from inner_loop_result [OF A1 less.prems(1) order_refl less.prems(4,5) first, of sols]
    obtain sols1 where
      run1: "inner_loop (word_of_int BOUND) (word_of_int A) (word_of_int B) 1 sols = Some sols1"
      and img1: "sint ` set sols1 = sint ` set sols \<union>
          {n. \<exists>c. 1 \<le> c \<and> n = candidate_value A B c \<and> n < BOUND \<and> perfect_square n}"
      and dist1: "distinct sols \<longrightarrow> distinct sols1"
      by auto
    have step: "middle_loop (word_of_int BOUND) (word_of_int A) (word_of_int B) sols
        = middle_loop (word_of_int BOUND) (word_of_int A) (word_of_int (B + 1)) sols1"
      using True by (subst middle_loop.simps) (simp add: word_sless_alt sA sB run1)
    have meas: "nat (A - (B + 1)) < nat (A - B)" using True by simp
    have B1: "1 \<le> B + 1" "B + 1 \<le> A" using less.prems(1) True by simp_all
    from less.hyps [OF meas B1 less.prems(3-5), of sols1]
    obtain sols' where
      run: "middle_loop (word_of_int BOUND) (word_of_int A) (word_of_int (B + 1)) sols1 = Some sols'"
      and img: "sint ` set sols' = sint ` set sols1 \<union>
          {n. \<exists>b c. B + 1 \<le> b \<and> b < A \<and> 1 \<le> c \<and> n = candidate_value A b c
                \<and> n < BOUND \<and> perfect_square n}"
      and dist: "distinct sols1 \<longrightarrow> distinct sols'"
      by blast
    have split: "{n. \<exists>b c. B \<le> b \<and> b < A \<and> 1 \<le> c \<and> n = candidate_value A b c
                \<and> n < BOUND \<and> perfect_square n}
        = {n. \<exists>c. 1 \<le> c \<and> n = candidate_value A B c \<and> n < BOUND \<and> perfect_square n} \<union>
          {n. \<exists>b c. B + 1 \<le> b \<and> b < A \<and> 1 \<le> c \<and> n = candidate_value A b c
                \<and> n < BOUND \<and> perfect_square n}"
      (is "?L = ?M \<union> ?R")
    proof (intro set_eqI iffI)
      fix n assume "n \<in> ?L"
      then obtain b c where c: "B \<le> b" "b < A" "1 \<le> c" "n = candidate_value A b c" "n < BOUND"
          "perfect_square n"
        by blast
      show "n \<in> ?M \<union> ?R"
      proof (cases "b = B")
        case True
        with c show ?thesis by blast
      next
        case False
        with c(1) have "B + 1 \<le> b" by simp
        with c show ?thesis by blast
      qed
    next
      fix n assume "n \<in> ?M \<union> ?R"
      then show "n \<in> ?L"
      proof
        assume "n \<in> ?M"
        with True show ?thesis by blast
      next
        assume "n \<in> ?R"
        then obtain b c where "B + 1 \<le> b" "b < A" "1 \<le> c" "n = candidate_value A b c"
            "n < BOUND" "perfect_square n"
          by blast
        then have "B \<le> b \<and> b < A \<and> 1 \<le> c \<and> n = candidate_value A b c \<and> n < BOUND
            \<and> perfect_square n" by simp
        then show ?thesis by blast
      qed
    qed
    show ?thesis
    proof (intro exI conjI)
      show "middle_loop (word_of_int BOUND) (word_of_int A) (word_of_int B) sols = Some sols'"
        using step run by simp
      show "sint ` set sols' = sint ` set sols \<union>
          {n. \<exists>b c. B \<le> b \<and> b < A \<and> 1 \<le> c \<and> n = candidate_value A b c
                \<and> n < BOUND \<and> perfect_square n}"
        unfolding split img img1 by (simp add: Un_assoc)
      show "distinct sols \<longrightarrow> distinct sols'"
        using dist dist1 by simp
    qed
  qed
qed

lemma outer_loop_result:
  assumes "1 \<le> A" "A \<le> LIMIT" "LIMIT \<le> 10000" "0 \<le> BOUND" "BOUND \<le> 2 ^ 52"
  shows "\<exists>sols'. outer_loop (word_of_int LIMIT) (word_of_int BOUND) (word_of_int A) sols = Some sols'
      \<and> sint ` set sols' = sint ` set sols \<union>
          {n. \<exists>a b c. A \<le> a \<and> a < LIMIT \<and> 1 \<le> b \<and> b < a \<and> 1 \<le> c
                \<and> n = candidate_value a b c \<and> n < BOUND \<and> perfect_square n}
      \<and> (distinct sols \<longrightarrow> distinct sols')"
  using assms
proof (induction "nat (LIMIT - A)" arbitrary: A sols rule: less_induct)
  case less
  have sA: "sint (word_of_int A :: i64) = A"
    using less.prems(1-3) by (intro sint_of_int_i64) simp_all
  have sL: "sint (word_of_int LIMIT :: i64) = LIMIT"
    using less.prems(1-3) by (intro sint_of_int_i64) simp_all
  show ?case
  proof (cases "A < LIMIT")
    case False
    with less.prems(2) have AL: "A = LIMIT" by simp
    have run: "outer_loop (word_of_int LIMIT) (word_of_int BOUND) (word_of_int A) sols = Some sols"
      using False by (subst outer_loop.simps) (simp add: word_sless_alt sA sL)
    have none: "{n. \<exists>a b c. A \<le> a \<and> a < LIMIT \<and> 1 \<le> b \<and> b < a \<and> 1 \<le> c
                \<and> n = candidate_value a b c \<and> n < BOUND \<and> perfect_square n} = {}"
      using AL by auto
    show ?thesis unfolding none run by simp
  next
    case True
    have A10: "A \<le> 10000" using True less.prems(3) by simp
    from middle_loop_result [OF order_refl less.prems(1) A10 less.prems(4,5), of sols]
    obtain sols1 where
      run1: "middle_loop (word_of_int BOUND) (word_of_int A) 1 sols = Some sols1"
      and img1: "sint ` set sols1 = sint ` set sols \<union>
          {n. \<exists>b c. 1 \<le> b \<and> b < A \<and> 1 \<le> c \<and> n = candidate_value A b c
                \<and> n < BOUND \<and> perfect_square n}"
      and dist1: "distinct sols \<longrightarrow> distinct sols1"
      by auto
    have step: "outer_loop (word_of_int LIMIT) (word_of_int BOUND) (word_of_int A) sols
        = outer_loop (word_of_int LIMIT) (word_of_int BOUND) (word_of_int (A + 1)) sols1"
      using True by (subst outer_loop.simps) (simp add: word_sless_alt sA sL run1)
    have meas: "nat (LIMIT - (A + 1)) < nat (LIMIT - A)" using True by simp
    have A1: "1 \<le> A + 1" "A + 1 \<le> LIMIT" using less.prems(1) True by simp_all
    from less.hyps [OF meas A1 less.prems(3-5), of sols1]
    obtain sols' where
      run: "outer_loop (word_of_int LIMIT) (word_of_int BOUND) (word_of_int (A + 1)) sols1
          = Some sols'"
      and img: "sint ` set sols' = sint ` set sols1 \<union>
          {n. \<exists>a b c. A + 1 \<le> a \<and> a < LIMIT \<and> 1 \<le> b \<and> b < a \<and> 1 \<le> c
                \<and> n = candidate_value a b c \<and> n < BOUND \<and> perfect_square n}"
      and dist: "distinct sols1 \<longrightarrow> distinct sols'"
      by blast
    have split: "{n. \<exists>a b c. A \<le> a \<and> a < LIMIT \<and> 1 \<le> b \<and> b < a \<and> 1 \<le> c
                \<and> n = candidate_value a b c \<and> n < BOUND \<and> perfect_square n}
        = {n. \<exists>b c. 1 \<le> b \<and> b < A \<and> 1 \<le> c \<and> n = candidate_value A b c
                \<and> n < BOUND \<and> perfect_square n} \<union>
          {n. \<exists>a b c. A + 1 \<le> a \<and> a < LIMIT \<and> 1 \<le> b \<and> b < a \<and> 1 \<le> c
                \<and> n = candidate_value a b c \<and> n < BOUND \<and> perfect_square n}"
      (is "?L = ?M \<union> ?R")
    proof (intro set_eqI iffI)
      fix n assume "n \<in> ?L"
      then obtain a b c where c: "A \<le> a" "a < LIMIT" "1 \<le> b" "b < a" "1 \<le> c"
          "n = candidate_value a b c" "n < BOUND" "perfect_square n"
        by blast
      show "n \<in> ?M \<union> ?R"
      proof (cases "a = A")
        case True
        with c show ?thesis by blast
      next
        case False
        with c(1) have "A + 1 \<le> a" by simp
        with c show ?thesis by blast
      qed
    next
      fix n assume "n \<in> ?M \<union> ?R"
      then show "n \<in> ?L"
      proof
        assume "n \<in> ?M"
        then obtain b c where "1 \<le> b" "b < A" "1 \<le> c" "n = candidate_value A b c"
            "n < BOUND" "perfect_square n"
          by blast
        with True have "A \<le> A \<and> A < LIMIT \<and> 1 \<le> b \<and> b < A \<and> 1 \<le> c
            \<and> n = candidate_value A b c \<and> n < BOUND \<and> perfect_square n" by simp
        then show ?thesis by blast
      next
        assume "n \<in> ?R"
        then obtain a b c where "A + 1 \<le> a" "a < LIMIT" "1 \<le> b" "b < a" "1 \<le> c"
            "n = candidate_value a b c" "n < BOUND" "perfect_square n"
          by blast
        then have "A \<le> a \<and> a < LIMIT \<and> 1 \<le> b \<and> b < a \<and> 1 \<le> c
            \<and> n = candidate_value a b c \<and> n < BOUND \<and> perfect_square n" by simp
        then show ?thesis by blast
      qed
    qed
    show ?thesis
    proof (intro exI conjI)
      show "outer_loop (word_of_int LIMIT) (word_of_int BOUND) (word_of_int A) sols = Some sols'"
        using step run by simp
      show "sint ` set sols' = sint ` set sols \<union>
          {n. \<exists>a b c. A \<le> a \<and> a < LIMIT \<and> 1 \<le> b \<and> b < a \<and> 1 \<le> c
                \<and> n = candidate_value a b c \<and> n < BOUND \<and> perfect_square n}"
        unfolding split img img1 by (simp add: Un_assoc)
      show "distinct sols \<longrightarrow> distinct sols'"
        using dist dist1 by simp
    qed
  qed
qed

lemma accumulate_sint:
  assumes "\<forall>x \<in> set xs. 0 \<le> sint x" "0 \<le> sint init"
    and "sint init + sum_list (map sint xs) < 2 ^ 63"
  shows "sint (accumulate xs init) = sint init + sum_list (map sint xs)"
  using assms
proof (induction xs arbitrary: init)
  case Nil
  then show ?case by simp
next
  case (Cons x xs)
  have nn: "0 \<le> sum_list (map sint xs)"
    using Cons.prems(1) by (intro sum_list_nonneg) auto
  have x0: "0 \<le> sint x" using Cons.prems(1) by simp
  have "sint init + sint x < 2 ^ 63" using Cons.prems(3) nn by simp
  then have s: "sint (init + x) = sint init + sint x"
    using Cons.prems(2) x0
    by (simp add: sint_word_ariths signed_take_bit_int_eq_self)
  have "sint (accumulate xs (init + x)) = sint (init + x) + sum_list (map sint xs)"
    using Cons.prems x0 s by (intro Cons.IH) simp_all
  then show ?case by (simp add: s)
qed

lemma inj_sint: "inj (sint :: i64 \<Rightarrow> int)"
  by (rule injI) (rule signed_word_eqI)

lemma sum_list_sint_distinct:
  "distinct (sols :: i64 list) \<Longrightarrow> sum_list (map sint sols) = \<Sum>(sint ` set sols)"
proof -
  assume d: "distinct sols"
  have "sum_list (map sint sols) = (\<Sum>n \<in> set sols. sint n)"
    using d by (simp add: sum_list_distinct_conv_sum_set)
  also have "\<dots> = \<Sum>(sint ` set sols)"
    by (rule sum.reindex_cong [symmetric, where l = sint])
       (simp_all add: inj_on_def signed_word_eqI)
  finally show ?thesis .
qed

lemma reached_bound:
  assumes "reached a b c"
  shows "candidate_value a b c < 2 ^ 63"
proof (cases "c = 1")
  case True
  have "candidate_value a b 1 < 2 ^ 63"
    using assms by (intro candidate_value_first) (simp_all add: reached_def)
  with True show ?thesis by simp
next
  case False
  from assms have h: "1 \<le> b" "b < a" "1 \<le> c"
    "\<forall>c' \<in> {1..<c}. candidate_value a b c' < 1000000000000"
    by (simp_all add: reached_def)
  have c2: "1 \<le> c - 1" using h(3) False by simp
  then have "c - 1 \<in> {1..<c}" by simp
  with h(4) have prev: "candidate_value a b (c - 1) < 1000000000000" by blast
  have a1: "1 \<le> a" using h(1,2) by simp
  have "candidate_value a b (c - 1 + 1) \<le> 4 * candidate_value a b (c - 1)"
    using a1 h(1) c2 by (rule candidate_value_next)
  with prev show ?thesis by simp
qed

lemma upto_from_1: "[1..numeral n] = 1 # [2..numeral n]"
  by (subst upto.simps) simp

lemma perfect_square_eval:
  "perfect_square n = (0 \<le> n \<and> (let r = int (isqrt (nat n)) in r * r = n))"
  by (simp add: perfect_square_def Let_def)

lemma squares_below_100000: "squares_below 46 100000 = [9, 10404, 16900, 10404, 10404, 10404, 16900, 97344]"
  unfolding squares_below_def
  by (simp add: candidate_value_def perfect_square_eval isqrt.simps upto_from_1 split del: if_split)

lemma set_scan_c:
  "set (scan_c bound a b cs) =
     {n. \<exists>c \<in> set cs. n = candidate_value a b c \<and> n < bound \<and> perfect_square n}"
  by (induction cs) (auto simp: Let_def)

lemma set_scan_b:
  "set (scan_b bound a bs) =
     (\<Union>b \<in> set bs. set (scan_c bound a b [1..int (isqrt (nat (bound div (a * a * a * b))))]))"
  by (induction bs) simp_all

lemma set_scan_a:
  "set (scan_a bound as) =
     (\<Union>a \<in> set as. set (scan_b bound a [1..min (a - 1) (bound div (a * a * a))]))"
  by (induction as) simp_all

lemma in_squares_below_iff:
  "n \<in> set (squares_below amax bound) \<longleftrightarrow>
     (\<exists>a b c. 2 \<le> a \<and> a \<le> amax \<and> 1 \<le> b \<and> b \<le> a - 1 \<and> b \<le> bound div (a * a * a)
        \<and> 1 \<le> c \<and> c \<le> int (isqrt (nat (bound div (a * a * a * b))))
        \<and> n = candidate_value a b c \<and> n < bound \<and> perfect_square n)"
  unfolding squares_below_def set_scan_a set_scan_b set_scan_c
  by (simp add: Bex_def) blast

lemma candidate_value_ge_lead:
  assumes "1 \<le> a" "1 \<le> b" "1 \<le> c"
  shows "c * c * (a * a * a * b) \<le> candidate_value a b c"
proof -
  have "0 \<le> c * (b * b)" using assms by simp
  then show ?thesis by (simp add: candidate_value_expand algebra_simps)
qed

lemma le_div_of_mult_le:
  fixes x y z :: int
  assumes "0 < y" "x * y \<le> z"
  shows "x \<le> z div y"
proof -
  have "(x * y) div y \<le> z div y" using assms(2,1) by (rule zdiv_mono1)
  then show ?thesis using assms(1) by simp
qed

lemma squares_below_complete:
  assumes "1 \<le> b" "b < a" "a \<le> amax" "1 \<le> c"
    and "n = candidate_value a b c" "n < bound" "perfect_square n"
  shows "n \<in> set (squares_below amax bound)"
proof -
  have a1: "1 \<le> a" "2 \<le> a" using assms(1,2) by simp_all
  define P where "P = a * a * a * b"
  have a3: "0 < a * a * a" using a1 by simp
  have Ppos: "0 < P" using a1 assms(1) by (simp add: P_def)
  have lead: "c * c * P \<le> n"
    unfolding P_def assms(5) using a1(1) assms(1,4) by (rule candidate_value_ge_lead)
  have "1 \<le> c * c" using assms(4) by (rule one_le_square)
  then have "1 * P \<le> c * c * P" using Ppos by (intro mult_right_mono) simp_all
  with lead have "b * (a * a * a) \<le> n" by (simp add: P_def algebra_simps)
  with assms(6) have "b * (a * a * a) \<le> bound" by simp
  with a3 have b_le: "b \<le> bound div (a * a * a)" by (rule le_div_of_mult_le)
  have "c * c * P \<le> bound" using lead assms(6) by simp
  with Ppos have cc: "c * c \<le> bound div P" by (rule le_div_of_mult_le)
  have "nat c * nat c \<le> nat (bound div P)"
  proof -
    have "nat c * nat c = nat (c * c)" using assms(4) by (simp add: nat_mult_distrib)
    also have "\<dots> \<le> nat (bound div P)" using cc by simp
    finally show ?thesis .
  qed
  then have "nat c \<le> isqrt (nat (bound div P))" by (rule isqrt_ge)
  then have c_le: "c \<le> int (isqrt (nat (bound div P)))" by simp
  have "2 \<le> a \<and> a \<le> amax \<and> 1 \<le> b \<and> b \<le> a - 1 \<and> b \<le> bound div (a * a * a)
      \<and> 1 \<le> c \<and> c \<le> int (isqrt (nat (bound div (a * a * a * b))))
      \<and> n = candidate_value a b c \<and> n < bound \<and> perfect_square n"
    using a1 assms b_le c_le by (simp add: P_def)
  then show ?thesis unfolding in_squares_below_iff by blast
qed

lemma squares_below_sound:
  assumes "n \<in> set (squares_below amax bound)"
  shows "\<exists>a b c. 1 \<le> b \<and> b < a \<and> a \<le> amax \<and> 1 \<le> c \<and> n = candidate_value a b c
      \<and> n < bound \<and> perfect_square n"
proof -
  from assms obtain a b c where
    "2 \<le> a" "a \<le> amax" "1 \<le> b" "b \<le> a - 1" "1 \<le> c"
    "n = candidate_value a b c" "n < bound" "perfect_square n"
    unfolding in_squares_below_iff by blast
  then have "1 \<le> b \<and> b < a \<and> a \<le> amax \<and> 1 \<le> c \<and> n = candidate_value a b c
      \<and> n < bound \<and> perfect_square n" by simp
  then show ?thesis by blast
qed

lemma cube_47:
  fixes a :: int
  assumes "47 \<le> a"
  shows "100000 < a * a * a"
proof -
  have "47 * 47 \<le> a * a" using assms by (intro mult_mono) simp_all
  then have "47 * 47 * 47 \<le> a * a * a" using assms by (intro mult_mono) simp_all
  then show ?thesis by simp
qed

lemma progressive_squares_100000:
  "{n. \<exists>a b c. 1 \<le> b \<and> b < a \<and> 1 \<le> c \<and> n = candidate_value a b c \<and> n < 100000
        \<and> perfect_square n} = {9, 10404, 16900, 97344}"
  (is "?L = ?R")
proof -
  have R: "?R = set (squares_below 46 100000)"
    by (simp add: squares_below_100000) blast
  show ?thesis
  proof (intro set_eqI iffI)
    fix n assume "n \<in> ?L"
    then obtain a b c where h: "1 \<le> b" "b < a" "1 \<le> c" "n = candidate_value a b c"
        "n < 100000" "perfect_square n"
      by blast
    have "a \<le> 46"
    proof (rule ccontr)
      assume "\<not> a \<le> 46"
      then have "47 \<le> a" by simp
      then have "100000 < a * a * a" by (rule cube_47)
      moreover have "a * a * a \<le> n"
        unfolding h(4) using h(1-3) by (intro candidate_value_ge_cube) simp_all
      ultimately show False using h(5) by simp
    qed
    with h have "n \<in> set (squares_below 46 100000)"
      by (intro squares_below_complete [of b a 46 c]) simp_all
    then show "n \<in> ?R" by (simp only: R)
  next
    fix n assume "n \<in> ?R"
    then have "n \<in> set (squares_below 46 100000)" by (simp only: R)
    then show "n \<in> ?L" using squares_below_sound [of n 46 100000] by blast
  qed
qed

text \<open>
  Claim C1. The search run with the bound \<open>100000\<close> in place of \<open>10\<^sup>1\<^sup>2\<close> returns, and its
  solution set is \<open>{9, 10404, 16900, 97344}\<close>, whose elements sum to \<open>124657\<close>. The limit of
  the loop over \<open>a\<close> may stay \<open>10000\<close> or be any value from \<open>47\<close> (the first \<open>a\<close> whose cube
  exceeds the bound) up to it.
\<close>

theorem small_bound_sum:
  assumes "47 \<le> LIMIT" "LIMIT \<le> 10000"
  shows "\<exists>sols. outer_loop (word_of_int LIMIT) 100000 1 [] = Some sols
      \<and> distinct sols
      \<and> sint ` set sols = {9, 10404, 16900, 97344}
      \<and> (\<Sum>n \<in> set sols. sint n) = 124657
      \<and> sint (accumulate sols 0) = 124657"
proof -
  have L1: "(1::int) \<le> LIMIT" using assms(1) by simp
  from outer_loop_result [of 1 LIMIT 100000 "[]", OF order_refl L1 assms(2)]
  obtain sols where
    run: "outer_loop (word_of_int LIMIT) 100000 1 [] = Some sols"
    and img: "sint ` set sols =
        {n. \<exists>a b c. 1 \<le> a \<and> a < LIMIT \<and> 1 \<le> b \<and> b < a \<and> 1 \<le> c
              \<and> n = candidate_value a b c \<and> n < 100000 \<and> perfect_square n}"
    and dist: "distinct sols"
    by auto
  have "{n. \<exists>a b c. 1 \<le> a \<and> a < LIMIT \<and> 1 \<le> b \<and> b < a \<and> 1 \<le> c
              \<and> n = candidate_value a b c \<and> n < 100000 \<and> perfect_square n}
      = {n. \<exists>a b c. 1 \<le> b \<and> b < a \<and> 1 \<le> c \<and> n = candidate_value a b c \<and> n < 100000
        \<and> perfect_square n}"
    (is "?A = ?B")
  proof (intro set_eqI iffI)
    fix n assume "n \<in> ?A"
    then show "n \<in> ?B" by blast
  next
    fix n assume "n \<in> ?B"
    then obtain a b c where h: "1 \<le> b" "b < a" "1 \<le> c" "n = candidate_value a b c"
        "n < 100000" "perfect_square n"
      by blast
    have "a < 47"
    proof (rule ccontr)
      assume "\<not> a < 47"
      then have "47 \<le> a" by simp
      then have "100000 < a * a * a" by (rule cube_47)
      moreover have "a * a * a \<le> n"
        unfolding h(4) using h(1-3) by (intro candidate_value_ge_cube) simp_all
      ultimately show False using h(5) by simp
    qed
    with assms(1) h have "1 \<le> a \<and> a < LIMIT \<and> 1 \<le> b \<and> b < a \<and> 1 \<le> c
        \<and> n = candidate_value a b c \<and> n < 100000 \<and> perfect_square n" by simp
    then show "n \<in> ?A" by blast
  qed
  with img have set_eq: "sint ` set sols = {9, 10404, 16900, 97344}"
    by (simp only: progressive_squares_100000)
  have sum_eq: "sum_list (map sint sols) = 124657"
    using sum_list_sint_distinct [OF dist] by (simp add: set_eq)
  have sum_set: "(\<Sum>n \<in> set sols. sint n) = 124657"
    using sum_eq dist by (simp add: sum_list_distinct_conv_sum_set)
  have nonneg: "\<forall>x \<in> set sols. 0 \<le> sint x"
  proof
    fix x assume "x \<in> set sols"
    then have "sint x \<in> {9, 10404, 16900, 97344}" using set_eq by blast
    then show "0 \<le> sint x" by auto
  qed
  have acc: "sint (accumulate sols 0) = 124657"
    using accumulate_sint [OF nonneg, of 0] sum_eq by simp
  from run dist set_eq sum_set acc show ?thesis by blast
qed

theorem small_bound_sum_witness:
  "\<exists>sols. outer_loop 10000 100000 1 [] = Some sols
      \<and> distinct sols
      \<and> sint ` set sols = {9, 10404, 16900, 97344}
      \<and> (\<Sum>n \<in> set sols. sint n) = 124657
      \<and> sint (accumulate sols 0) = 124657"
  using small_bound_sum [of 10000] by simp

lemma word_of_int_sint_i64: "word_of_int (sint w) = (w :: i64)"
  by simp

lemma is_perfect_square_sint:
  assumes "0 \<le> sint w" "sint w < 2 ^ 52"
  shows "is_perfect_square w = Some (perfect_square (sint w))"
  using is_perfect_square_exact [OF assms] by simp

text \<open>
  Claim C2. For every \<open>i64\<close> value \<open>n\<close> with \<open>0 \<le> n < 10\<^sup>1\<^sup>2\<close> (so also for every
  \<open>n < 10\<^sup>7\<close>) \<open>is_perfect_square n\<close> returns, and it returns true if and only if
  \<open>\<lfloor>\<surd>n\<rfloor>\<^sup>2 = n\<close>, that is, if and only if \<open>n\<close> is a perfect square.
\<close>

theorem is_perfect_square_correct:
  assumes "0 \<le> sint n" "sint n < 1000000000000"
  shows "is_perfect_square n = Some (\<lfloor>sqrt (real_of_int (sint n))\<rfloor> ^ 2 = sint n)
    \<and> (is_perfect_square n = Some True \<longleftrightarrow> (\<exists>k. sint n = k * k))"
proof -
  have "sint n < 2 ^ 52" using assms(2) by simp
  with assms(1) have "is_perfect_square n = Some (perfect_square (sint n))"
    by (rule is_perfect_square_sint)
  then show ?thesis
    using perfect_square_floor_sqrt [OF assms(1)] perfect_square_iff [of "sint n"] by simp
qed

theorem is_perfect_square_correct_witness:
  "is_perfect_square 10404 = Some True \<and> \<lfloor>sqrt (real_of_int 10404)\<rfloor> ^ 2 = (10404 :: int)"
proof -
  have "\<exists>k. (10404 :: int) = k * k"
    by (rule exI [of _ 102]) simp
  then show ?thesis
    using is_perfect_square_correct [of 10404] by simp
qed

lemma square_mod_4:
  fixes t :: nat
  shows "(t * t) mod 4 \<noteq> 2"
proof -
  have "(t * t) mod 4 = ((t mod 4) * (t mod 4)) mod 4"
    by (simp add: mod_mult_eq)
  moreover have "t mod 4 = 0 \<or> t mod 4 = 1 \<or> t mod 4 = 2 \<or> t mod 4 = 3"
    by arith
  ultimately show ?thesis by auto
qed

lemma quadratic_residues_2: "\<not> quadratic_residues ! 2"
proof
  assume "quadratic_residues ! 2"
  then obtain t :: nat where "2 = (t * t) mod 64"
    by (auto simp: quadratic_residues_nth)
  then have "(t * t) mod 64 mod 4 = 2" by simp
  moreover have "(t * t) mod 64 mod 4 = (t * t) mod 4"
    by (rule mod_mod_cancel) simp
  ultimately show False using square_mod_4 [of t] by simp
qed

text \<open>
  Claim C3. For every natural number \<open>k\<close> the bit at index \<open>k\<^sup>2 mod 64\<close> of the table
  built by \<open>quadratic_residues_mod<64>()\<close> is set. So a number \<open>m\<close> whose bit at
  \<open>m mod 64\<close> is unset is not a square, and when \<open>is_perfect_square\<close> takes its
  fast-rejection branch on an \<open>i64\<close> value, that value is not a square.
\<close>

theorem residue_table_sound:
  "quadratic_residues_mod 64 ! ((k * k) mod 64)
   \<and> (\<not> quadratic_residues_mod 64 ! (m mod 64) \<longrightarrow> m \<noteq> j * j)
   \<and> (\<not> quadratic_residues ! (unat (n :: i64) mod MODULUS) \<longrightarrow> sint n \<noteq> i * i)"
proof (intro conjI impI)
  have eq: "quadratic_residues_mod 64 = quadratic_residues"
    by (simp add: quadratic_residues_def MODULUS_def)
  show "quadratic_residues_mod 64 ! ((k * k) mod 64)"
    unfolding eq by (rule quadratic_residues_square)
  show "m \<noteq> j * j" if "\<not> quadratic_residues_mod 64 ! (m mod 64)"
    using that quadratic_residues_square [of j] unfolding eq by auto
  show "sint n \<noteq> i * i" if h: "\<not> quadratic_residues ! (unat n mod MODULUS)"
  proof
    assume sq: "sint n = i * i"
    then have nn: "0 \<le> sint n" by simp
    define t where "t = nat \<bar>i\<bar>"
    have "sint n < 2 ^ 64"
      using sint_lt [of n] by simp
    then have "uint n = sint n"
      using nn by (simp add: uint_sint take_bit_int_eq_self)
    then have "unat n = nat (i * i)" using sq by (metis nat_uint_eq)
    also have "\<dots> = t * t"
      by (simp add: t_def nat_mult_distrib [symmetric] abs_mult_self_eq del: abs_mult_self_eq)
    finally have "unat n = t * t" .
    with h quadratic_residues_square [of t] show False by (simp add: MODULUS_def)
  qed
qed

theorem residue_table_sound_witness:
  "quadratic_residues_mod 64 ! ((3 * 3) mod 64)
   \<and> \<not> quadratic_residues_mod 64 ! (2 mod 64) \<and> (\<forall>j :: nat. 2 \<noteq> j * j)
   \<and> \<not> quadratic_residues ! (unat (2 :: i64) mod MODULUS) \<and> (\<forall>i. sint (2 :: i64) \<noteq> i * i)"
proof -
  have eq: "quadratic_residues_mod 64 = quadratic_residues"
    by (simp add: quadratic_residues_def MODULUS_def)
  have a: "\<not> quadratic_residues_mod 64 ! (2 mod 64)"
    unfolding eq using quadratic_residues_2 by simp
  have b: "\<not> quadratic_residues ! (unat (2 :: i64) mod MODULUS)"
    using quadratic_residues_2 by (simp add: MODULUS_def)
  show ?thesis
    using residue_table_sound [of 3 2 _ 2] a b by blast
qed

lemma compute_candidate_exact:
  assumes "1 \<le> A" "1 \<le> B" "1 \<le> C" "candidate_value A B C < 2 ^ 63"
  shows "sint (compute_candidate (word_of_int A) (word_of_int B) (word_of_int C))
    = candidate_value A B C"
proof -
  have "C \<le> candidate_value A B C" using assms(1-3) by (rule candidate_value_pos)
  with assms(3) have "- (2 ^ 63) \<le> candidate_value A B C" by simp
  then show ?thesis
    using assms(4) by (simp add: compute_candidate_of_int sint_of_int_i64)
qed

text \<open>
  Claim C4, as stated, fails where the products leave the 64-bit range:
  \<open>compute_candidate(3000000, 1, 1)\<close> is \<open>3000000\<^sup>3 + 1\<close> reduced modulo \<open>2\<^sup>6\<^sup>4\<close>.
\<close>

theorem candidate_decomposition_counterexample:
  "1 \<le> sint (1 :: i64) \<and> sint (1 :: i64) < sint (3000000 :: i64)
   \<and> sint (compute_candidate 3000000 1 1) = 8553255926290448385
   \<and> candidate_value (sint (3000000 :: i64)) (sint (1 :: i64)) (sint (1 :: i64))
       = 27000000000000000001
   \<and> sint (compute_candidate 3000000 1 1)
       \<noteq> candidate_value (sint (3000000 :: i64)) (sint (1 :: i64)) (sint (1 :: i64))"
  by (simp add: compute_candidate_def candidate_value_def)

text \<open>
  Claim C4, amended. For every triple of integers \<open>a > b \<ge> 1\<close>, \<open>c \<ge> 1\<close> whose candidate
  \<open>c\<^sup>2a\<^sup>3b + cb\<^sup>2\<close> is below \<open>2\<^sup>6\<^sup>3\<close>, with \<open>r = cb\<^sup>2\<close>, \<open>d = cab\<close> and \<open>q = ca\<^sup>2\<close>:
  \<open>r < d \<le> q\<close>, \<open>compute_candidate a b c\<close> is exactly \<open>c\<^sup>2a\<^sup>3b + cb\<^sup>2 = dq + r\<close>, and
  \<open>r, d, q\<close> are consecutive terms of a geometric progression of ratio \<open>a/b\<close>.
\<close>

theorem candidate_decomposition:
  assumes "1 \<le> b" "b < a" "1 \<le> c" "candidate_value a b c < 2 ^ 63"
  shows "c * b\<^sup>2 < c * a * b \<and> c * a * b \<le> c * a\<^sup>2
    \<and> sint (compute_candidate (word_of_int a) (word_of_int b) (word_of_int c))
        = candidate_value a b c
    \<and> candidate_value a b c = (c * a * b) * (c * a\<^sup>2) + c * b\<^sup>2
    \<and> (c * a * b) * b = (c * b\<^sup>2) * a \<and> (c * a\<^sup>2) * b = (c * a * b) * a"
proof (intro conjI)
  have a1: "1 \<le> a" using assms(1,2) by simp
  have cb: "0 < c * b" using assms(1,3) by simp
  have "(c * b) * b < (c * b) * a" using assms(2) cb by (rule mult_strict_left_mono)
  then show "c * b\<^sup>2 < c * a * b" by (simp add: power2_eq_square algebra_simps)
  have ca: "0 \<le> c * a" using a1 assms(3) by simp
  have "(c * a) * b \<le> (c * a) * a" using assms(2) ca by (intro mult_left_mono) simp_all
  then show "c * a * b \<le> c * a\<^sup>2" by (simp add: power2_eq_square algebra_simps)
  show "sint (compute_candidate (word_of_int a) (word_of_int b) (word_of_int c))
      = candidate_value a b c"
    using a1 assms(1,3,4) by (rule compute_candidate_exact)
  show "candidate_value a b c = (c * a * b) * (c * a\<^sup>2) + c * b\<^sup>2"
    by (simp add: candidate_value_def power2_eq_square power3_eq_cube algebra_simps)
  show "(c * a * b) * b = (c * b\<^sup>2) * a"
    by (simp add: power2_eq_square algebra_simps)
  show "(c * a\<^sup>2) * b = (c * a * b) * a"
    by (simp add: power2_eq_square algebra_simps)
qed

theorem candidate_decomposition_witness:
  "(4 :: int) < 6 \<and> (6 :: int) \<le> 9 \<and> sint (compute_candidate 3 2 1) = 58
   \<and> (58 :: int) = 6 * 9 + 4 \<and> (6 :: int) * 2 = 4 * 3 \<and> (9 :: int) * 2 = 6 * 3"
  using candidate_decomposition [of 2 3 1] by (simp add: candidate_value_def)

text \<open>
  Claim C5, as stated, fails where the products leave the 64-bit range: for \<open>a = 2\<close>,
  \<open>b = 1\<close> the value at \<open>c = 1100000000\<close> has wrapped around and is below the value at
  \<open>c = 1000000000\<close>.
\<close>

theorem candidate_monotone_counterexample:
  "1 \<le> sint (2 :: i64) \<and> 1 \<le> sint (1 :: i64) \<and> 1 \<le> sint (1000000000 :: i64)
   \<and> sint (1000000000 :: i64) < sint (1100000000 :: i64)
   \<and> sint (compute_candidate 2 1 1100000000) < sint (compute_candidate 2 1 1000000000)"
  by (simp add: compute_candidate_def)

text \<open>
  Claim C5, amended. For \<open>a \<ge> 1\<close> and \<open>b \<ge> 1\<close> the formula \<open>c\<^sup>2a\<^sup>3b + cb\<^sup>2\<close> is strictly
  increasing in \<open>c \<ge> 1\<close>, and so is \<open>compute_candidate a b c\<close> as long as the candidate
  of the larger \<open>c\<close> is below \<open>2\<^sup>6\<^sup>3\<close>, which holds for every \<open>c\<close> the loop of \<open>main\<close> reaches.
\<close>

theorem candidate_strictly_increasing:
  assumes "1 \<le> a" "1 \<le> b" "1 \<le> c" "c < c'"
  shows "candidate_value a b c < candidate_value a b c'
    \<and> (candidate_value a b c' < 2 ^ 63 \<longrightarrow>
        sint (compute_candidate (word_of_int a) (word_of_int b) (word_of_int c))
          < sint (compute_candidate (word_of_int a) (word_of_int b) (word_of_int c')))
    \<and> (reached a b c' \<longrightarrow> candidate_value a b c' < 2 ^ 63)"
proof (intro conjI impI)
  show mono: "candidate_value a b c < candidate_value a b c'"
    using assms by (rule candidate_value_mono)
  show "sint (compute_candidate (word_of_int a) (word_of_int b) (word_of_int c))
      < sint (compute_candidate (word_of_int a) (word_of_int b) (word_of_int c'))"
    if fits: "candidate_value a b c' < 2 ^ 63"
  proof -
    from mono fits have lt: "candidate_value a b c < 2 ^ 63" by simp
    have c': "1 \<le> c'" using assms(3,4) by simp
    have "sint (compute_candidate (word_of_int a) (word_of_int b) (word_of_int c))
        = candidate_value a b c"
      using assms(1-3) lt by (rule compute_candidate_exact)
    moreover have "sint (compute_candidate (word_of_int a) (word_of_int b) (word_of_int c'))
        = candidate_value a b c'"
      using assms(1,2) c' fits by (rule compute_candidate_exact)
    ultimately show ?thesis using mono by simp
  qed
  show "candidate_value a b c' < 2 ^ 63" if "reached a b c'"
    using that by (rule reached_bound)
qed

theorem candidate_strictly_increasing_witness:
  "candidate_value 3 2 1 < candidate_value 3 2 2
   \<and> sint (compute_candidate 3 2 1) < sint (compute_candidate 3 2 2)
   \<and> candidate_value 2 1 2000000000 < candidate_value 2 1 3000000000
   \<and> reached 3 2 2 \<and> candidate_value 3 2 2 < 2 ^ 63"
proof -
  have "c' \<in> {1..<2} \<Longrightarrow> candidate_value 3 2 c' < 1000000000000" for c' :: int
  proof -
    assume "c' \<in> {1..<2}"
    then have "c' = 1" by simp
    then show ?thesis by (simp add: candidate_value_def)
  qed
  then have r: "reached 3 2 2" by (simp add: reached_def)
  have v: "candidate_value 3 2 2 = 224" by (simp add: candidate_value_def)
  show ?thesis
    using candidate_strictly_increasing [of 3 2 1 2]
      candidate_strictly_increasing [of 2 1 2000000000 3000000000] r
    by (simp add: v)
qed

lemma first_exceed:
  assumes "1 \<le> A" "1 \<le> B" "1 \<le> C" "0 \<le> BOUND" "BOUND \<le> 2 ^ 52"
    and "candidate_value A B C < 2 ^ 63"
  shows "\<exists>c. C \<le> c \<and> BOUND \<le> candidate_value A B c \<and> candidate_value A B c < 2 ^ 63
    \<and> (\<forall>c'. C \<le> c' \<and> c' < c \<longrightarrow> candidate_value A B c' < BOUND)"
  using assms
proof (induction "nat (BOUND - C)" arbitrary: C rule: less_induct)
  case less
  show ?case
  proof (cases "BOUND \<le> candidate_value A B C")
    case True
    with less.prems(6) have "C \<le> C \<and> BOUND \<le> candidate_value A B C
        \<and> candidate_value A B C < 2 ^ 63
        \<and> (\<forall>c'. C \<le> c' \<and> c' < C \<longrightarrow> candidate_value A B c' < BOUND)"
      by simp
    then show ?thesis by blast
  next
    case False
    have CE: "C \<le> candidate_value A B C"
      using less.prems(1-3) by (rule candidate_value_pos)
    have "candidate_value A B (C + 1) \<le> 4 * candidate_value A B C"
      using less.prems(1-3) by (rule candidate_value_next)
    with False less.prems(5) have nxt: "candidate_value A B (C + 1) < 2 ^ 63" by simp
    have meas: "nat (BOUND - (C + 1)) < nat (BOUND - C)" using CE False by simp
    have C1: "1 \<le> C + 1" using less.prems(3) by simp
    from less.hyps [OF meas less.prems(1,2) C1 less.prems(4,5) nxt]
    obtain c where c: "C + 1 \<le> c" "BOUND \<le> candidate_value A B c"
        "candidate_value A B c < 2 ^ 63"
        "\<forall>c'. C + 1 \<le> c' \<and> c' < c \<longrightarrow> candidate_value A B c' < BOUND"
      by blast
    have "candidate_value A B c' < BOUND" if "C \<le> c'" "c' < c" for c'
    proof (cases "c' = C")
      case True
      with False show ?thesis by simp
    next
      case False
      with that(1) have "C + 1 \<le> c'" by simp
      with c(4) that(2) show ?thesis by blast
    qed
    with c(1-3) have "C \<le> c \<and> BOUND \<le> candidate_value A B c \<and> candidate_value A B c < 2 ^ 63
        \<and> (\<forall>c'. C \<le> c' \<and> c' < c \<longrightarrow> candidate_value A B c' < BOUND)"
      by simp
    then show ?thesis by blast
  qed
qed

lemma main_enumeration:
  "\<exists>sols. outer_loop 10000 1000000000000 1 [] = Some sols \<and> distinct sols
     \<and> sint ` set sols =
         {n. \<exists>a b c. 1 \<le> b \<and> b < a \<and> a < 10000 \<and> 1 \<le> c \<and> n = candidate_value a b c
               \<and> n < 1000000000000 \<and> perfect_square n}"
proof -
  from outer_loop_result [of 1 10000 1000000000000 "[]"]
  obtain sols where
    run: "outer_loop 10000 1000000000000 1 [] = Some sols"
    and img: "sint ` set sols =
        {n. \<exists>a b c. 1 \<le> a \<and> a < 10000 \<and> 1 \<le> b \<and> b < a \<and> 1 \<le> c
              \<and> n = candidate_value a b c \<and> n < 1000000000000 \<and> perfect_square n}"
    and dist: "distinct sols"
    by auto
  have "{n. \<exists>a b c. 1 \<le> a \<and> a < 10000 \<and> 1 \<le> b \<and> b < a \<and> 1 \<le> c
              \<and> n = candidate_value a b c \<and> n < 1000000000000 \<and> perfect_square n}
      = {n. \<exists>a b c. 1 \<le> b \<and> b < a \<and> a < 10000 \<and> 1 \<le> c \<and> n = candidate_value a b c
               \<and> n < 1000000000000 \<and> perfect_square n}"
    by (intro set_eqI iffI; clarsimp) (metis less_imp_le order_trans)+
  with run img dist show ?thesis by auto
qed

lemma sint_of_nat_i64:
  assumes "r < 2 ^ 63"
  shows "sint (word_of_nat r :: i64) = int r"
proof -
  have "int r < 2 ^ 63" using assms by (metis of_nat_less_iff of_nat_numeral of_nat_power)
  then have "sint (word_of_int (int r) :: i64) = int r"
    by (intro sint_of_int_i64) simp_all
  then show ?thesis by simp
qed

lemma isqrt_le_self: "isqrt n \<le> n"
proof -
  have "isqrt n * isqrt n \<le> n" using isqrt_bounds [of n] by simp
  moreover have "isqrt n \<le> isqrt n * isqrt n" by (rule le_square)
  ultimately show ?thesis by (rule order_trans [rotated])
qed

lemma sqrt_i64_sint:
  assumes "0 \<le> sint s" "sint s < 2 ^ 52"
  shows "sqrt_i64 s = Some (word_of_nat (isqrt (nat (sint s))))"
  using sqrt_i64_exact [OF assms] by simp

lemma root_value:
  assumes "0 \<le> sint s" "sint s < 2 ^ 52"
  shows "sint (word_of_nat (isqrt (nat (sint s))) :: i64) = int (isqrt (nat (sint s)))"
proof -
  have "nat (sint s) < 2 ^ 52" using assms by (simp add: nat_less_iff)
  with isqrt_le_self [of "nat (sint s)"] have "isqrt (nat (sint s)) < 2 ^ 63" by simp
  then show ?thesis by (rule sint_of_nat_i64)
qed

lemma print_roots_result:
  assumes "\<forall>s \<in> set xs. 0 \<le> sint s \<and> sint s < 2 ^ 52"
  shows "print_roots xs
    = Some (concat (map (\<lambda>s. show_int (int (isqrt (nat (sint s)))) @ endl) xs))"
  using assms
proof (induction xs)
  case Nil
  then show ?case by simp
next
  case (Cons s xs)
  have s: "0 \<le> sint s" "sint s < 2 ^ 52" using Cons.prems by simp_all
  have "print_roots xs
      = Some (concat (map (\<lambda>s. show_int (int (isqrt (nat (sint s)))) @ endl) xs))"
    using Cons.prems by (intro Cons.IH) simp
  then show ?case
    by (simp add: sqrt_i64_sint [OF s] show_i64_def root_value [OF s])
qed

lemma square_sum_bound:
  assumes "finite S" "\<forall>n \<in> S. 0 \<le> n \<and> n < 1000000000000 \<and> perfect_square n"
  shows "\<Sum>S < 2 ^ 62"
proof -
  let ?f = "\<lambda>k :: nat. int k * int k"
  let ?K = "{..<1000000 :: nat}"
  have sub: "S \<subseteq> ?f ` ?K"
  proof
    fix n assume "n \<in> S"
    with assms(2) have n: "0 \<le> n" "n < 1000000000000" "perfect_square n" by simp_all
    define k where "k = isqrt (nat n)"
    have kk: "int k * int k = n" using n(3) by (simp add: perfect_square_def k_def)
    have "k < 1000000"
    proof (rule ccontr)
      assume "\<not> k < 1000000"
      then have "1000000 \<le> int k" by simp
      then have "1000000 * 1000000 \<le> int k * int k" by (intro mult_mono) simp_all
      with kk n(2) show False by simp
    qed
    with kk show "n \<in> ?f ` ?K" by force
  qed
  have "\<Sum>S \<le> \<Sum>(?f ` ?K)"
    by (rule sum_mono2) (use sub in auto)
  also have "\<dots> \<le> (\<Sum>k \<in> ?K. ?f k)"
    using sum_image_le [of ?K "\<lambda>x. x" ?f] by (simp add: o_def)
  also have "\<dots> \<le> (\<Sum>k \<in> ?K. 1000000 * 1000000)"
  proof (rule sum_mono)
    fix k assume "k \<in> ?K"
    then have "int k \<le> 1000000" by simp
    then show "?f k \<le> 1000000 * 1000000" by (intro mult_mono) simp_all
  qed
  also have "\<dots> < 2 ^ 62" by simp
  finally show ?thesis .
qed

lemma digit_string: "d < 10 \<Longrightarrow> digit d = ''0123456789'' ! d"
proof -
  assume "d < 10"
  then have "d = 0 \<or> d = 1 \<or> d = 2 \<or> d = 3 \<or> d = 4 \<or> d = 5 \<or> d = 6 \<or> d = 7 \<or> d = 8 \<or> d = 9"
    by arith
  then show ?thesis
    by (elim disjE) (simp_all add: digit_def char_of_def bit_Suc_0_iff)
qed

lemma digit_facts:
  assumes "d < 10"
  shows "digit d \<in> set ''0123456789''" "of_char (digit d) - 48 = d"
    "digit d = CHR ''0'' \<longleftrightarrow> d = 0"
proof -
  from assms have "d = 0 \<or> d = 1 \<or> d = 2 \<or> d = 3 \<or> d = 4 \<or> d = 5 \<or> d = 6 \<or> d = 7 \<or> d = 8 \<or> d = 9"
    by arith
  then show "digit d \<in> set ''0123456789''" "of_char (digit d) - 48 = d"
    "digit d = CHR ''0'' \<longleftrightarrow> d = 0"
    by (elim disjE; simp add: digit_string)+
qed

lemma dec_nat_nonempty: "dec_nat n \<noteq> []"
  by (subst dec_nat.simps) simp

lemma dec_nat_digits: "set (dec_nat n) \<subseteq> set ''0123456789''"
proof (induction n rule: dec_nat.induct)
  case (1 n)
  show ?case
  proof (cases "n < 10")
    case True
    then have "dec_nat n = [digit n]" by (subst dec_nat.simps) simp
    with digit_facts(1) [OF True] show ?thesis by simp
  next
    case False
    then have eq: "dec_nat n = dec_nat (n div 10) @ [digit (n mod 10)]"
      by (subst dec_nat.simps) simp
    have "n mod 10 < 10" by simp
    from digit_facts(1) [OF this] 1 [OF False] show ?thesis
      unfolding eq by simp
  qed
qed

lemma dec_value_snoc: "dec_value (s @ [ch]) = 10 * dec_value s + (of_char ch - 48)"
  by (simp add: dec_value_def)

lemma dec_value_dec_nat: "dec_value (dec_nat n) = n"
proof (induction n rule: dec_nat.induct)
  case (1 n)
  show ?case
  proof (cases "n < 10")
    case True
    then have "dec_nat n = [digit n]" by (subst dec_nat.simps) simp
    with digit_facts(2) [OF True] show ?thesis by (simp add: dec_value_def)
  next
    case False
    then have eq: "dec_nat n = dec_nat (n div 10) @ [digit (n mod 10)]"
      by (subst dec_nat.simps) simp
    have "n mod 10 < 10" by simp
    from digit_facts(2) [OF this] 1 [OF False] show ?thesis
      unfolding eq dec_value_snoc by simp
  qed
qed

lemma dec_nat_no_leading_zero: "0 < n \<Longrightarrow> hd (dec_nat n) \<noteq> CHR ''0''"
proof (induction n rule: dec_nat.induct)
  case (1 n)
  show ?case
  proof (cases "n < 10")
    case True
    then have "dec_nat n = [digit n]" by (subst dec_nat.simps) simp
    with digit_facts(3) [OF True] 1(2) show ?thesis by simp
  next
    case False
    then have eq: "dec_nat n = dec_nat (n div 10) @ [digit (n mod 10)]"
      by (subst dec_nat.simps) simp
    have "0 < n div 10" using False by simp
    with 1(1) [OF False] have "hd (dec_nat (n div 10)) \<noteq> CHR ''0''" by simp
    then show ?thesis unfolding eq by (simp add: dec_nat_nonempty)
  qed
qed

lemma show_int_facts:
  "show_int i \<noteq> []" "CHR 0x0A \<notin> set (show_int i)"
  "set (show_int i) \<subseteq> set ''-0123456789''" "read_int (show_int i) = i"
proof -
  show "show_int i \<noteq> []" by (simp add: show_int_def dec_nat_nonempty)
  have incl: "set ''0123456789'' \<subseteq> set ''-0123456789''"
    by (simp add: subset_insertI2)
  have d: "set (dec_nat n) \<subseteq> set ''-0123456789''" for n
    using dec_nat_digits [of n] incl by (rule subset_trans)
  show sub: "set (show_int i) \<subseteq> set ''-0123456789''"
  proof (cases "i < 0")
    case True
    then have "set (show_int i) = insert CHR ''-'' (set (dec_nat (nat (- i))))"
      by (simp add: show_int_def)
    with d [of "nat (- i)"] show ?thesis by simp
  next
    case False
    then have "set (show_int i) = set (dec_nat (nat i))"
      by (simp add: show_int_def)
    with d [of "nat i"] show ?thesis by simp
  qed
  have "CHR 0x0A \<notin> set ''-0123456789''" by simp
  with sub show "CHR 0x0A \<notin> set (show_int i)" by blast
  show "read_int (show_int i) = i"
  proof (cases "i < 0")
    case True
    then show ?thesis by (simp add: show_int_def read_int_def dec_value_dec_nat)
  next
    case False
    obtain ch ds where eq: "dec_nat (nat i) = ch # ds"
      using dec_nat_nonempty [of "nat i"] by (cases "dec_nat (nat i)") auto
    have "ch \<in> set (dec_nat (nat i))" by (simp add: eq)
    with dec_nat_digits [of "nat i"] have "ch \<in> set ''0123456789''" by (rule subsetD)
    moreover have "CHR ''-'' \<notin> set ''0123456789''" by simp
    ultimately have "ch \<noteq> CHR ''-''" by blast
    then have "read_int (ch # ds) = int (dec_value (ch # ds))" by (simp add: read_int_def)
    then show ?thesis using False dec_value_dec_nat [of "nat i"] eq
      by (simp add: show_int_def)
  qed
qed

lemma lines_of_line:
  "CHR 0x0A \<notin> set l \<Longrightarrow> lines_of (l @ CHR 0x0A # rest) = l # lines_of rest"
  by (induction l) auto

lemma lines_of_concat:
  assumes "\<forall>x \<in> set xs. CHR 0x0A \<notin> set (f x)"
  shows "lines_of (concat (map (\<lambda>x. f x @ [CHR 0x0A]) xs) @ rest) = map f xs @ lines_of rest"
  using assms
proof (induction xs)
  case Nil
  then show ?case by simp
next
  case (Cons x xs)
  have "lines_of (f x @ CHR 0x0A # (concat (map (\<lambda>x. f x @ [CHR 0x0A]) xs) @ rest))
      = f x # lines_of (concat (map (\<lambda>x. f x @ [CHR 0x0A]) xs) @ rest)"
    using Cons.prems by (intro lines_of_line) simp
  then show ?case using Cons by simp
qed

lemma lines_of_output:
  "lines_of (concat (map (\<lambda>x. show_int (f x) @ [CHR 0x0A]) xs)
      @ [CHR 0x0A] @ show_int t @ [CHR 0x0A])
    = map (\<lambda>x. show_int (f x)) xs @ [[], show_int t]"
proof -
  have "lines_of ([CHR 0x0A] @ show_int t @ [CHR 0x0A]) = [[], show_int t]"
    using lines_of_line [of "show_int t" "[]"] show_int_facts(2) [of t] by simp
  then show ?thesis
    using lines_of_concat [of xs "\<lambda>x. show_int (f x)" "[CHR 0x0A] @ show_int t @ [CHR 0x0A]"]
      show_int_facts(2)
    by simp
qed

lemma show_int_examples:
  "show_int 0 = ''0''"
  "show_int 102 = ''102''"
  "show_int 124657 = ''124657''"
  "show_int (- 5) = ''-5''"
  by (simp_all add: show_int_def dec_nat.simps digit_string)

lemma main_result:
  assumes perm: "\<And>xs. mset (iteration xs) = mset xs"
  shows "\<exists>sols. outer_loop 10000 1000000000000 1 [] = Some sols \<and> distinct sols
     \<and> sint ` set sols =
         {n. \<exists>a b c. 1 \<le> b \<and> b < a \<and> a < 10000 \<and> 1 \<le> c \<and> n = candidate_value a b c
               \<and> n < 1000000000000 \<and> perfect_square n}
     \<and> main iteration =
         Some (concat (map (\<lambda>s. show_int (int (isqrt (nat (sint s)))) @ endl) (iteration sols))
               @ endl @ show_int (\<Sum>n \<in> set sols. sint n) @ endl, 0)"
proof -
  from main_enumeration obtain sols where
    run: "outer_loop 10000 1000000000000 1 [] = Some sols"
    and dist: "distinct sols"
    and img: "sint ` set sols =
         {n. \<exists>a b c. 1 \<le> b \<and> b < a \<and> a < 10000 \<and> 1 \<le> c \<and> n = candidate_value a b c
               \<and> n < 1000000000000 \<and> perfect_square n}"
    by blast
  define order where "order = iteration sols"
  have m: "mset order = mset sols" unfolding order_def by (rule perm)
  then have set_eq: "set order = set sols" by (rule mset_eq_setD)
  have dist_o: "distinct order" using m dist by (metis mset_eq_imp_distinct_iff)
  have elem: "0 \<le> sint s \<and> sint s < 1000000000000 \<and> perfect_square (sint s)"
    if "s \<in> set sols" for s
  proof -
    from that have "sint s \<in> sint ` set sols" by simp
    then obtain a b c where h: "1 \<le> b" "b < a" "1 \<le> c" "sint s = candidate_value a b c"
        "sint s < 1000000000000" "perfect_square (sint s)"
      unfolding img by blast
    have "1 \<le> a" using h(1,2) by simp
    then have "c \<le> candidate_value a b c" using h(1,3) by (rule candidate_value_pos)
    with h show ?thesis by simp
  qed
  have small: "\<forall>s \<in> set order. 0 \<le> sint s \<and> sint s < 2 ^ 52"
  proof
    fix s assume "s \<in> set order"
    then have "s \<in> set sols" by (simp only: set_eq)
    from elem [OF this] show "0 \<le> sint s \<and> sint s < 2 ^ 52" by simp
  qed
  have roots: "print_roots order
      = Some (concat (map (\<lambda>s. show_int (int (isqrt (nat (sint s)))) @ endl) order))"
    using small by (rule print_roots_result)
  have sum_o: "sum_list (map sint order) = \<Sum>(sint ` set sols)"
    using sum_list_sint_distinct [OF dist_o] by (simp only: set_eq)
  have "\<Sum>(sint ` set sols) < 2 ^ 62"
  proof (rule square_sum_bound)
    show "finite (sint ` set sols)" by simp
    show "\<forall>n \<in> sint ` set sols. 0 \<le> n \<and> n < 1000000000000 \<and> perfect_square n"
      using elem by blast
  qed
  then have lt: "sint (0 :: i64) + sum_list (map sint order) < 2 ^ 63"
    using sum_o by simp
  have nonneg: "\<forall>x \<in> set order. 0 \<le> sint x" using small by blast
  have "sint (accumulate order 0) = sint (0 :: i64) + sum_list (map sint order)"
    using nonneg _ lt by (rule accumulate_sint) simp
  then have "sint (accumulate order 0) = \<Sum>(sint ` set sols)"
    using sum_o by simp
  also have "\<dots> = (\<Sum>n \<in> set sols. sint n)"
    using sum_list_sint_distinct [OF dist] dist by (simp add: sum_list_distinct_conv_sum_set)
  finally have total: "show_i64 (accumulate order 0) = show_int (\<Sum>n \<in> set sols. sint n)"
    by (simp add: show_i64_def)
  have "main iteration =
      Some (concat (map (\<lambda>s. show_int (int (isqrt (nat (sint s)))) @ endl) (iteration sols))
            @ endl @ show_int (\<Sum>n \<in> set sols. sint n) @ endl, 0)"
    using roots total by (simp add: main_def run order_def)
  with run dist img show ?thesis by blast
qed

lemma compute_candidate_zero: "compute_candidate 8589934592 4294967296 c = 0"
proof -
  have a: "(8589934592 :: i64) * 8589934592 = 0" by simp
  have b: "(4294967296 :: i64) * 4294967296 = 0" by simp
  have "c * c * 8589934592 * 8589934592 * 8589934592 * 4294967296
      = c * c * (8589934592 * 8589934592) * 8589934592 * (4294967296 :: i64)"
    by (simp only: mult.assoc)
  also have "\<dots> = 0" by (simp only: a mult_zero_right mult_zero_left)
  finally have l: "c * c * 8589934592 * 8589934592 * 8589934592 * 4294967296 = (0 :: i64)" .
  have "c * 4294967296 * 4294967296 = c * (4294967296 * 4294967296 :: i64)"
    by (simp only: mult.assoc)
  also have "\<dots> = 0" by (simp only: b mult_zero_right)
  finally have r: "c * 4294967296 * 4294967296 = (0 :: i64)" .
  show ?thesis unfolding compute_candidate_def l r by simp
qed

lemma inner_loop_wrapped_never_returns:
  assumes "inner_loop bound a b c sols = Some r"
  shows "\<not> (bound = 1000000000000 \<and> a = 8589934592 \<and> b = 4294967296)"
proof (rule inner_loop.raw_induct
    [where P = "\<lambda>bound a b c sols r. \<not> (bound = 1000000000000 \<and> a = 8589934592 \<and> b = 4294967296)",
     OF _ assms])
  fix inner_loop' :: "i64 \<Rightarrow> i64 \<Rightarrow> i64 \<Rightarrow> i64 \<Rightarrow> i64 list \<Rightarrow> i64 list option"
  fix bound a b c :: i64 and sols r :: "i64 list"
  assume IH: "\<And>bound a b c sols r. inner_loop' bound a b c sols = Some r \<Longrightarrow>
      \<not> (bound = 1000000000000 \<and> a = 8589934592 \<and> b = 4294967296)"
  assume body: "(let n = compute_candidate a b c
      in if bound \<le>s n then Some sols
         else do {
           sq \<leftarrow> is_perfect_square n;
           inner_loop' bound a b (c + 1) (if sq then List.insert n sols else sols)
         }) = Some r"
  show "\<not> (bound = 1000000000000 \<and> a = 8589934592 \<and> b = 4294967296)"
  proof
    assume h: "bound = 1000000000000 \<and> a = 8589934592 \<and> b = 4294967296"
    with body obtain sq where
      "inner_loop' bound a b (c + 1) (if sq then List.insert 0 sols else sols) = Some r"
      by (auto simp: compute_candidate_zero word_sle_eq split: bind_splits if_splits)
    then have "\<not> (bound = 1000000000000 \<and> a = 8589934592 \<and> b = 4294967296)"
      by (rule IH)
    with h show False by simp
  qed
qed

text \<open>
  The loop over \<open>c\<close> is only run inside the loops over \<open>a < 10000\<close> and \<open>b < a\<close>. The
  hypothesis below on the first candidate covers all those pairs; it cannot be dropped
  for arbitrary \<open>i64\<close> arguments: for \<open>a = 2\<^sup>3\<^sup>3\<close> and \<open>b = 2\<^sup>3\<^sup>2\<close> both \<open>a*a\<close> and \<open>b*b\<close> wrap
  around to 0, every candidate is 0, and the loop would never reach its \<open>break\<close>.
\<close>

lemma inner_loop_wrapped_diverges:
  "inner_loop 1000000000000 8589934592 4294967296 1 [] = None"
proof (cases "inner_loop 1000000000000 8589934592 4294967296 1 []")
  case None
  then show ?thesis .
next
  case (Some r)
  from inner_loop_wrapped_never_returns [OF this] show ?thesis by simp
qed

text \<open>
  Claim C6. For every pair \<open>(a, b)\<close> with \<open>1 \<le> b < a\<close> that \<open>main\<close> runs the loop over \<open>c\<close>
  for (\<open>a < 10\<^sup>4\<close>), and more generally whenever the first candidate \<open>a\<^sup>3b + b\<^sup>2\<close> is below
  \<open>2\<^sup>6\<^sup>3\<close>, the loop started at \<open>c = 1\<close> returns: there is a \<open>c \<ge> 1\<close> whose candidate is not
  below \<open>10\<^sup>1\<^sup>2\<close>, no smaller \<open>c \<ge> 1\<close> has one, so the loop reaches that \<open>c\<close> and breaks
  there. Hence the enumeration returns, and so does \<open>main\<close>, with status 0, whatever
  the iteration order of the container.
\<close>

theorem enumeration_terminates:
  assumes "1 \<le> b" "b < a" "a < 10000 \<or> candidate_value a b 1 < 2 ^ 63"
  shows "(\<exists>sols'. inner_loop 1000000000000 (word_of_int a) (word_of_int b) 1 sols = Some sols')
    \<and> (\<exists>c :: i64. 1 \<le> sint c
          \<and> 1000000000000 \<le>s compute_candidate (word_of_int a) (word_of_int b) c
          \<and> (\<forall>c' :: i64. 1 \<le> sint c' \<and> sint c' < sint c \<longrightarrow>
                \<not> 1000000000000 \<le>s compute_candidate (word_of_int a) (word_of_int b) c'))
    \<and> (\<exists>sols. outer_loop 10000 1000000000000 1 [] = Some sols)
    \<and> ((\<forall>xs. mset (iteration xs) = mset xs) \<longrightarrow> (\<exists>out. main iteration = Some (out, 0)))"
proof (intro conjI impI)
  have a1: "1 \<le> a" using assms(1,2) by simp
  have first: "candidate_value a b 1 < 2 ^ 63"
    using assms(3)
  proof
    assume "a < 10000"
    then have "a \<le> 10000" by simp
    with assms(1,2) show ?thesis by (rule candidate_value_first)
  qed
  from inner_loop_result [of a b 1 1000000000000 sols, OF a1 assms(1) order_refl _ _ first]
  show "\<exists>sols'. inner_loop 1000000000000 (word_of_int a) (word_of_int b) 1 sols = Some sols'"
    by auto
  from first_exceed [of a b 1 1000000000000, OF a1 assms(1) order_refl _ _ first]
  obtain c where c: "1 \<le> c" "1000000000000 \<le> candidate_value a b c"
      "candidate_value a b c < 2 ^ 63"
      "\<forall>c'. 1 \<le> c' \<and> c' < c \<longrightarrow> candidate_value a b c' < 1000000000000"
    by auto
  have "c \<le> candidate_value a b c" using a1 assms(1) c(1) by (rule candidate_value_pos)
  with c(1,3) have sc: "sint (word_of_int c :: i64) = c"
    by (intro sint_of_int_i64) simp_all
  have "sint (compute_candidate (word_of_int a) (word_of_int b) (word_of_int c))
      = candidate_value a b c"
    using a1 assms(1) c(1) c(3) by (rule compute_candidate_exact)
  with c(2) have brk: "1000000000000 \<le>s compute_candidate (word_of_int a) (word_of_int b) (word_of_int c)"
    by (simp add: word_sle_eq)
  have before: "\<not> 1000000000000 \<le>s compute_candidate (word_of_int a) (word_of_int b) c'"
    if "1 \<le> sint c' \<and> sint c' < sint (word_of_int c :: i64)" for c' :: i64
  proof -
    from that have h: "1 \<le> sint c'" "sint c' < c" by (simp_all add: sc)
    with c(4) have small: "candidate_value a b (sint c') < 1000000000000" by blast
    then have "candidate_value a b (sint c') < 2 ^ 63" by simp
    with a1 assms(1) h(1)
    have "sint (compute_candidate (word_of_int a) (word_of_int b) (word_of_int (sint c')))
        = candidate_value a b (sint c')"
      by (rule compute_candidate_exact)
    then have "sint (compute_candidate (word_of_int a) (word_of_int b) c')
        = candidate_value a b (sint c')"
      by simp
    with small show ?thesis by (simp add: word_sle_eq)
  qed
  from c(1) sc brk before
  show "\<exists>c :: i64. 1 \<le> sint c
      \<and> 1000000000000 \<le>s compute_candidate (word_of_int a) (word_of_int b) c
      \<and> (\<forall>c' :: i64. 1 \<le> sint c' \<and> sint c' < sint c \<longrightarrow>
            \<not> 1000000000000 \<le>s compute_candidate (word_of_int a) (word_of_int b) c')"
    by (intro exI [of _ "word_of_int c"]) simp
  show "\<exists>sols. outer_loop 10000 1000000000000 1 [] = Some sols"
    using main_enumeration by blast
  show "\<exists>out. main iteration = Some (out, 0)" if "\<forall>xs. mset (iteration xs) = mset xs"
    using main_result [of iteration] that by blast
qed

theorem enumeration_terminates_witness:
  "(\<exists>sols'. inner_loop 1000000000000 2 1 1 [] = Some sols')
    \<and> (\<exists>c :: i64. 1 \<le> sint c \<and> 1000000000000 \<le>s compute_candidate 2 1 c
          \<and> (\<forall>c' :: i64. 1 \<le> sint c' \<and> sint c' < sint c \<longrightarrow>
                \<not> 1000000000000 \<le>s compute_candidate 2 1 c'))
    \<and> (\<exists>sols. outer_loop 10000 1000000000000 1 [] = Some sols)
    \<and> (\<exists>out. main (\<lambda>xs. xs) = Some (out, 0))"
  using enumeration_terminates [of 1 2 "[]" "\<lambda>xs. xs"] by simp

lemma solution_inv_iff:
  "solution_inv sols \<longleftrightarrow>
     sint ` set sols \<subseteq>
       {n. (\<exists>a b c. b < a \<and> 1 \<le> b \<and> 1 \<le> c \<and> n = candidate_value a b c)
            \<and> (\<exists>k. n = k * k) \<and> n < 1000000000000}"
  by (auto simp: solution_inv_def)

lemma reached_candidate:
  assumes "reached a b c"
  shows "1 \<le> a" "1 \<le> b" "b < a" "a \<le> 10000" "1 \<le> c"
    "c \<le> candidate_value a b c" "candidate_value a b c < 2 ^ 63"
    "sint (compute_candidate (word_of_int a) (word_of_int b) (word_of_int c))
      = candidate_value a b c"
proof -
  show b: "1 \<le> b" and ba: "b < a" and "a \<le> 10000" and c: "1 \<le> c"
    using assms by (simp_all add: reached_def)
  show a: "1 \<le> a" using b ba by simp
  show "c \<le> candidate_value a b c" using a b c by (rule candidate_value_pos)
  show lt: "candidate_value a b c < 2 ^ 63" using assms by (rule reached_bound)
  show "sint (compute_candidate (word_of_int a) (word_of_int b) (word_of_int c))
      = candidate_value a b c"
    using a b c lt by (intro compute_candidate_exact) simp_all
qed

lemma invariant_step:
  assumes r: "reached a b c" and inv: "solution_inv sols"
    and lt: "\<not> (1000000000000 \<le>s compute_candidate (word_of_int a) (word_of_int b) (word_of_int c))"
    and sq: "is_perfect_square (compute_candidate (word_of_int a) (word_of_int b) (word_of_int c))
      = Some sq"
  shows "solution_inv
    (if sq then List.insert (compute_candidate (word_of_int a) (word_of_int b) (word_of_int c)) sols
     else sols)"
proof (cases sq)
  case False
  with inv show ?thesis by simp
next
  case True
  define n where "n = compute_candidate (word_of_int a) (word_of_int b) (word_of_int c)"
  note rc = reached_candidate [OF r]
  have sn: "sint n = candidate_value a b c" unfolding n_def by (rule rc(8))
  have small: "sint n < 1000000000000" using lt by (simp add: word_sle_eq n_def [symmetric])
  have nn: "0 \<le> sint n" using rc(5,6) sn by simp
  have "sint n < 2 ^ 52" using small by simp
  with nn have "is_perfect_square n = Some (perfect_square (sint n))"
    by (rule is_perfect_square_sint)
  with sq True have "perfect_square (sint n)" by (simp add: n_def)
  then have k: "\<exists>k. sint n = k * k" by (simp add: perfect_square_iff)
  have abc: "\<exists>a b c. b < a \<and> 1 \<le> b \<and> 1 \<le> c \<and> sint n = candidate_value a b c"
    using rc(2,3,5) sn by blast
  have "sint n \<in> {n. (\<exists>a b c. b < a \<and> 1 \<le> b \<and> 1 \<le> c \<and> n = candidate_value a b c)
            \<and> (\<exists>k. n = k * k) \<and> n < 1000000000000}"
    using abc k small by simp
  moreover have "sint ` set sols \<subseteq> {n. (\<exists>a b c. b < a \<and> 1 \<le> b \<and> 1 \<le> c \<and> n = candidate_value a b c)
            \<and> (\<exists>k. n = k * k) \<and> n < 1000000000000}"
    using inv by (simp only: solution_inv_iff)
  ultimately have "solution_inv (List.insert n sols)"
    by (simp only: solution_inv_iff set_insert image_insert insert_subset simp_thms)
  with True show ?thesis by (simp add: n_def)
qed

lemma invariant_inner:
  assumes r: "reached a b c" and inv: "solution_inv sols"
  shows "\<exists>sols'. inner_loop 1000000000000 (word_of_int a) (word_of_int b) (word_of_int c) sols
      = Some sols' \<and> solution_inv sols'"
proof -
  note rc = reached_candidate [OF r]
  from inner_loop_result [of a b c 1000000000000 sols, OF rc(1,2,5) _ _ rc(7)]
  obtain sols' where
    run: "inner_loop 1000000000000 (word_of_int a) (word_of_int b) (word_of_int c) sols = Some sols'"
    and img: "sint ` set sols' = sint ` set sols \<union>
        {n. \<exists>c'. c \<le> c' \<and> n = candidate_value a b c' \<and> n < 1000000000000 \<and> perfect_square n}"
    by auto
  have "{n. \<exists>c'. c \<le> c' \<and> n = candidate_value a b c' \<and> n < 1000000000000 \<and> perfect_square n}
      \<subseteq> {n. (\<exists>a b c. b < a \<and> 1 \<le> b \<and> 1 \<le> c \<and> n = candidate_value a b c)
            \<and> (\<exists>k. n = k * k) \<and> n < 1000000000000}"
  proof
    fix n
    assume "n \<in> {n. \<exists>c'. c \<le> c' \<and> n = candidate_value a b c' \<and> n < 1000000000000
        \<and> perfect_square n}"
    then obtain c' where h: "c \<le> c'" "n = candidate_value a b c'" "n < 1000000000000"
        "perfect_square n"
      by blast
    have "1 \<le> c'" using rc(5) h(1) by simp
    with rc(2,3) h(2) have "\<exists>a b c. b < a \<and> 1 \<le> b \<and> 1 \<le> c \<and> n = candidate_value a b c"
      by blast
    moreover have "\<exists>k. n = k * k" using h(4) by (simp add: perfect_square_iff)
    ultimately show "n \<in> {n. (\<exists>a b c. b < a \<and> 1 \<le> b \<and> 1 \<le> c \<and> n = candidate_value a b c)
            \<and> (\<exists>k. n = k * k) \<and> n < 1000000000000}"
      using h(3) by simp
  qed
  moreover have "sint ` set sols
      \<subseteq> {n. (\<exists>a b c. b < a \<and> 1 \<le> b \<and> 1 \<le> c \<and> n = candidate_value a b c)
            \<and> (\<exists>k. n = k * k) \<and> n < 1000000000000}"
    using inv by (simp only: solution_inv_iff)
  ultimately have "solution_inv sols'"
    by (simp only: solution_inv_iff img Un_subset_iff simp_thms)
  with run show ?thesis by blast
qed

lemma invariant_final:
  "\<exists>sols. outer_loop 10000 1000000000000 1 [] = Some sols \<and> solution_inv sols"
proof -
  from main_enumeration obtain sols where
    run: "outer_loop 10000 1000000000000 1 [] = Some sols"
    and img: "sint ` set sols =
         {n. \<exists>a b c. 1 \<le> b \<and> b < a \<and> a < 10000 \<and> 1 \<le> c \<and> n = candidate_value a b c
               \<and> n < 1000000000000 \<and> perfect_square n}"
    by blast
  have "sint ` set sols
      \<subseteq> {n. (\<exists>a b c. b < a \<and> 1 \<le> b \<and> 1 \<le> c \<and> n = candidate_value a b c)
            \<and> (\<exists>k. n = k * k) \<and> n < 1000000000000}"
  proof
    fix n assume "n \<in> sint ` set sols"
    then obtain a b c where h: "1 \<le> b" "b < a" "1 \<le> c" "n = candidate_value a b c"
        "n < 1000000000000" "perfect_square n"
      unfolding img by blast
    then have "\<exists>a b c. b < a \<and> 1 \<le> b \<and> 1 \<le> c \<and> n = candidate_value a b c" by blast
    moreover have "\<exists>k. n = k * k" using h(6) by (simp add: perfect_square_iff)
    ultimately show "n \<in> {n. (\<exists>a b c. b < a \<and> 1 \<le> b \<and> 1 \<le> c \<and> n = candidate_value a b c)
            \<and> (\<exists>k. n = k * k) \<and> n < 1000000000000}"
      using h(5) by simp
  qed
  then have "solution_inv sols" by (simp only: solution_inv_iff)
  with run show ?thesis by blast
qed

text \<open>
  Claim C7. The solution set starts empty, every iteration of the loop body that
  the enumeration executes keeps the invariant, so does the rest of the loop over \<open>c\<close>
  from any triple reached, and the invariant holds of the set the enumeration returns:
  every member is \<open>c\<^sup>2a\<^sup>3b + cb\<^sup>2\<close> for some \<open>a > b \<ge> 1\<close>, \<open>c \<ge> 1\<close>, is a perfect square and
  is below \<open>10\<^sup>1\<^sup>2\<close>.
\<close>

theorem solution_set_invariant:
  "solution_inv []
   \<and> (reached a b c \<and> solution_inv sols
        \<and> \<not> (1000000000000 \<le>s compute_candidate (word_of_int a) (word_of_int b) (word_of_int c))
        \<and> is_perfect_square (compute_candidate (word_of_int a) (word_of_int b) (word_of_int c))
            = Some sq
      \<longrightarrow> solution_inv
            (if sq
             then List.insert (compute_candidate (word_of_int a) (word_of_int b) (word_of_int c)) sols
             else sols))
   \<and> (reached a b c \<and> solution_inv sols
      \<longrightarrow> (\<exists>sols'. inner_loop 1000000000000 (word_of_int a) (word_of_int b) (word_of_int c) sols
              = Some sols' \<and> solution_inv sols'))
   \<and> (\<exists>sols. outer_loop 10000 1000000000000 1 [] = Some sols \<and> solution_inv sols)"
proof (intro conjI impI)
  show "solution_inv []" by (simp add: solution_inv_def)
  show "solution_inv
      (if sq
       then List.insert (compute_candidate (word_of_int a) (word_of_int b) (word_of_int c)) sols
       else sols)"
    if "reached a b c \<and> solution_inv sols
        \<and> \<not> (1000000000000 \<le>s compute_candidate (word_of_int a) (word_of_int b) (word_of_int c))
        \<and> is_perfect_square (compute_candidate (word_of_int a) (word_of_int b) (word_of_int c))
            = Some sq"
    using that invariant_step [of a b c sols sq] by blast
  show "\<exists>sols'. inner_loop 1000000000000 (word_of_int a) (word_of_int b) (word_of_int c) sols
      = Some sols' \<and> solution_inv sols'"
    if "reached a b c \<and> solution_inv sols"
    using that invariant_inner [of a b c sols] by blast
  show "\<exists>sols. outer_loop 10000 1000000000000 1 [] = Some sols \<and> solution_inv sols"
    by (rule invariant_final)
qed

lemma perfect_square_9: "perfect_square 9"
  by (simp add: perfect_square_def isqrt.simps)

theorem solution_set_invariant_witness:
  "solution_inv [] \<and> solution_inv [9]
   \<and> (\<exists>sols'. inner_loop 1000000000000 2 1 1 [] = Some sols' \<and> solution_inv sols')
   \<and> (\<exists>sols. outer_loop 10000 1000000000000 1 [] = Some sols \<and> solution_inv sols)"
proof -
  have r: "reached 2 1 1" by (simp add: reached_def)
  have cc: "compute_candidate 2 1 1 = 9" by (simp add: compute_candidate_def)
  have lt: "\<not> (1000000000000 :: i64) \<le>s 9" by (simp add: word_sle_eq)
  have ps: "is_perfect_square 9 = Some True"
    using is_perfect_square_exact [of 9] perfect_square_9 by simp
  have e: "solution_inv []" by (simp add: solution_inv_def)
  show ?thesis
    using solution_set_invariant [of 2 1 1 "[]" True] r cc lt ps e by simp
qed

lemma mult_ge_self:
  fixes x y :: int
  assumes "1 \<le> x" "1 \<le> y"
  shows "x \<le> x * y" "1 \<le> x * y"
proof -
  have "x * 1 \<le> x * y" using assms by (intro mult_left_mono) simp_all
  then show le: "x \<le> x * y" by simp
  from assms(1) le show "1 \<le> x * y" by (rule order_trans)
qed

lemma candidate_terms_range:
  assumes "1 \<le> a" "1 \<le> b" "1 \<le> c" "candidate_value a b c < 2 ^ 63"
  shows "list_all i64_range (candidate_terms a b c)"
proof -
  define t1 where "t1 = c * c"
  define t2 where "t2 = t1 * a"
  define t3 where "t3 = t2 * a"
  define t4 where "t4 = t3 * a"
  define t5 where "t5 = t4 * b"
  define t6 where "t6 = c * b"
  define t7 where "t7 = t6 * b"
  have p1: "1 \<le> t1" unfolding t1_def using assms(3) by (rule one_le_square)
  have p2: "t1 \<le> t2" "1 \<le> t2" unfolding t2_def using p1 assms(1) by (rule mult_ge_self)+
  have p3: "t2 \<le> t3" "1 \<le> t3" unfolding t3_def using p2(2) assms(1) by (rule mult_ge_self)+
  have p4: "t3 \<le> t4" "1 \<le> t4" unfolding t4_def using p3(2) assms(1) by (rule mult_ge_self)+
  have p5: "t4 \<le> t5" "1 \<le> t5" unfolding t5_def using p4(2) assms(2) by (rule mult_ge_self)+
  have p6: "1 \<le> t6" unfolding t6_def using assms(3,2) by (rule mult_ge_self)
  have p7: "t6 \<le> t7" "1 \<le> t7" unfolding t7_def using p6 assms(2) by (rule mult_ge_self)+
  have total: "t5 + t7 = candidate_value a b c"
    by (simp add: candidate_value_expand t1_def t2_def t3_def t4_def t5_def t6_def t7_def)
  then have lt: "t5 + t7 < 2 ^ 63" using assms(4) by simp
  have terms: "candidate_terms a b c = [t1, t2, t3, t4, t5, t6, t7, t5 + t7]"
    by (simp add: candidate_terms_def t1_def t2_def t3_def t4_def t5_def t6_def t7_def)
  show ?thesis
    unfolding terms using p1 p2 p3 p4 p5 p6 p7 lt by (simp add: i64_range_def)
qed

lemma root_check_range:
  assumes "0 \<le> n" "n < 1000000000000"
  shows "\<exists>root. sqrt_i64 (word_of_int n) = Some root
    \<and> i64_range (sint root * sint root) \<and> sint (root * root) = sint root * sint root"
proof -
  define r where "r = isqrt (nat n)"
  define root :: i64 where "root = word_of_nat r"
  have n52: "n < 2 ^ 52" using assms(2) by simp
  have run: "sqrt_i64 (word_of_int n) = Some root"
    unfolding root_def r_def using assms(1) n52 by (rule sqrt_i64_exact)
  have "int r * int r \<le> int (nat n)"
    using isqrt_bounds [of "nat n"] unfolding r_def
    by (metis of_nat_le_iff of_nat_mult)
  then have rr: "int r * int r \<le> n" using assms(1) by simp
  have "r \<le> nat n" unfolding r_def by (rule isqrt_le_self)
  then have "r < 2 ^ 63" using n52 assms(1) by (simp add: nat_less_iff le_nat_iff)
  then have sr: "sint root = int r" unfolding root_def by (rule sint_of_nat_i64)
  define q where "q = int r * int r"
  have "0 \<le> q" "q \<le> n" using rr by (simp_all add: q_def)
  then have "i64_range q" using assms(2) by (simp add: i64_range_def)
  then have range: "i64_range (sint root * sint root)"
    by (simp add: sr q_def)
  then have "sint (root * root) = sint root * sint root"
    by (simp add: sint_word_ariths signed_take_bit_int_eq_self i64_range_def)
  with run range show ?thesis by blast
qed

text \<open>
  Claim C8. For every triple the enumeration of \<open>main\<close> reaches, every subexpression of
  \<open>c*c*a*a*a*b + c*b*b\<close> has its exact value in the signed 64-bit range, so the wrapped
  result is the exact candidate; and when the classifier is called (the candidate is
  below \<open>10\<^sup>1\<^sup>2\<close>) the root it computes has a square in range, so \<open>root*root\<close> is exact.
\<close>

theorem no_overflow:
  assumes "reached a b c"
  shows "list_all i64_range (candidate_terms a b c)
    \<and> sint (compute_candidate (word_of_int a) (word_of_int b) (word_of_int c))
        = candidate_value a b c
    \<and> (candidate_value a b c < 1000000000000 \<longrightarrow>
        (\<exists>root. sqrt_i64 (compute_candidate (word_of_int a) (word_of_int b) (word_of_int c))
            = Some root
          \<and> i64_range (sint root * sint root)
          \<and> sint (root * root) = sint root * sint root))"
proof (intro conjI impI)
  note rc = reached_candidate [OF assms]
  show "list_all i64_range (candidate_terms a b c)"
    using rc(1,2,5,7) by (rule candidate_terms_range)
  show "sint (compute_candidate (word_of_int a) (word_of_int b) (word_of_int c))
      = candidate_value a b c"
    by (rule rc(8))
  show "\<exists>root. sqrt_i64 (compute_candidate (word_of_int a) (word_of_int b) (word_of_int c))
        = Some root
      \<and> i64_range (sint root * sint root)
      \<and> sint (root * root) = sint root * sint root"
    if "candidate_value a b c < 1000000000000"
  proof -
    have "0 \<le> candidate_value a b c" using rc(5,6) by simp
    from root_check_range [OF this that] show ?thesis
      by (simp add: compute_candidate_of_int)
  qed
qed

theorem no_overflow_witness:
  "list_all i64_range (candidate_terms 3 2 2)
    \<and> sint (compute_candidate 3 2 2) = 224
    \<and> (\<exists>root. sqrt_i64 (compute_candidate 3 2 2) = Some root
          \<and> i64_range (sint root * sint root)
          \<and> sint (root * root) = sint root * sint root)"
proof -
  have "c' \<in> {1..<2} \<Longrightarrow> candidate_value 3 2 c' < 1000000000000" for c' :: int
  proof -
    assume "c' \<in> {1..<2}"
    then have "c' = 1" by simp
    then show ?thesis by (simp add: candidate_value_def)
  qed
  then have r: "reached 3 2 2" by (simp add: reached_def)
  have v: "candidate_value 3 2 2 = 224" by (simp add: candidate_value_def)
  show ?thesis
    using no_overflow [OF r] by (simp add: v)
qed

text \<open>
  Claim C9. Whatever order the container yields its elements in, the program returns
  status 0 and what it has written is, line by line: for each element of the solution
  set, once, a line with the decimal numeral of the integer square root of that
  element; then an empty line; then a line with the decimal numeral of the sum of the
  elements. Every line ends with a line feed. The numerals are non-empty, made of
  digits (after a sign for a negative number), hold no line feed, have no leading
  zero, and read back as the number written.
\<close>

theorem main_output:
  assumes "\<And>xs. mset (iteration xs) = mset xs"
  shows "\<exists>sols out. outer_loop 10000 1000000000000 1 [] = Some sols
     \<and> distinct (iteration sols) \<and> set (iteration sols) = set sols
     \<and> (\<forall>s \<in> set sols. int (isqrt (nat (sint s))) * int (isqrt (nat (sint s))) = sint s)
     \<and> main iteration = Some (out, 0)
     \<and> out =
         concat (map (\<lambda>s. show_int (int (isqrt (nat (sint s)))) @ [CHR 0x0A]) (iteration sols))
         @ [CHR 0x0A] @ show_int (\<Sum>n \<in> set sols. sint n) @ [CHR 0x0A]
     \<and> lines_of out =
         map (\<lambda>s. show_int (int (isqrt (nat (sint s))))) (iteration sols)
         @ [[], show_int (\<Sum>n \<in> set sols. sint n)]
     \<and> (\<forall>i. show_int i \<noteq> [] \<and> CHR 0x0A \<notin> set (show_int i)
           \<and> set (show_int i) \<subseteq> set ''-0123456789'' \<and> read_int (show_int i) = i)
     \<and> (\<forall>n. show_int (int n) = dec_nat n \<and> set (dec_nat n) \<subseteq> set ''0123456789''
           \<and> dec_value (dec_nat n) = n \<and> (hd (dec_nat n) = CHR ''0'' \<longleftrightarrow> n = 0))"
proof -
  from main_result [of iteration, OF assms] obtain sols where
    run: "outer_loop 10000 1000000000000 1 [] = Some sols"
    and dist: "distinct sols"
    and img: "sint ` set sols =
         {n. \<exists>a b c. 1 \<le> b \<and> b < a \<and> a < 10000 \<and> 1 \<le> c \<and> n = candidate_value a b c
               \<and> n < 1000000000000 \<and> perfect_square n}"
    and out: "main iteration =
         Some (concat (map (\<lambda>s. show_int (int (isqrt (nat (sint s)))) @ endl) (iteration sols))
               @ endl @ show_int (\<Sum>n \<in> set sols. sint n) @ endl, 0)"
    by blast
  define out where "out =
      concat (map (\<lambda>s. show_int (int (isqrt (nat (sint s)))) @ [CHR 0x0A]) (iteration sols))
      @ [CHR 0x0A] @ show_int (\<Sum>n \<in> set sols. sint n) @ [CHR 0x0A]"
  have res: "main iteration = Some (out, 0)"
    using out by (simp add: out_def endl_def)
  have lines: "lines_of out =
      map (\<lambda>s. show_int (int (isqrt (nat (sint s))))) (iteration sols)
      @ [[], show_int (\<Sum>n \<in> set sols. sint n)]"
    unfolding out_def by (rule lines_of_output)
  have m: "mset (iteration sols) = mset sols" by (rule assms)
  then have s: "set (iteration sols) = set sols" by (rule mset_eq_setD)
  have d: "distinct (iteration sols)" using m dist by (metis mset_eq_imp_distinct_iff)
  have roots: "\<forall>s \<in> set sols. int (isqrt (nat (sint s))) * int (isqrt (nat (sint s))) = sint s"
  proof
    fix s assume "s \<in> set sols"
    then have "sint s \<in> sint ` set sols" by simp
    then have "perfect_square (sint s)" unfolding img by blast
    then show "int (isqrt (nat (sint s))) * int (isqrt (nat (sint s))) = sint s"
      by (simp add: perfect_square_def)
  qed
  have numerals: "\<forall>i. show_int i \<noteq> [] \<and> CHR 0x0A \<notin> set (show_int i)
      \<and> set (show_int i) \<subseteq> set ''-0123456789'' \<and> read_int (show_int i) = i"
    using show_int_facts by blast
  have digits: "\<forall>n. show_int (int n) = dec_nat n \<and> set (dec_nat n) \<subseteq> set ''0123456789''
      \<and> dec_value (dec_nat n) = n \<and> (hd (dec_nat n) = CHR ''0'' \<longleftrightarrow> n = 0)"
  proof (intro allI conjI)
    fix n :: nat
    show "show_int (int n) = dec_nat n" by (simp add: show_int_def)
    show "set (dec_nat n) \<subseteq> set ''0123456789''" by (rule dec_nat_digits)
    show "dec_value (dec_nat n) = n" by (rule dec_value_dec_nat)
    show "hd (dec_nat n) = CHR ''0'' \<longleftrightarrow> n = 0"
    proof (cases "n = 0")
      case True
      then show ?thesis using show_int_examples(1) by (simp add: show_int_def)
    next
      case False
      then show ?thesis using dec_nat_no_leading_zero [of n] by simp
    qed
  qed
  show ?thesis
    using run d s roots res lines numerals digits
    unfolding out_def by (intro exI [of _ sols] exI [of _ out] conjI) (simp_all add: out_def)
qed

theorem main_output_witness:
  "(\<exists>sols out. outer_loop 10000 1000000000000 1 [] = Some sols
     \<and> distinct sols
     \<and> main (\<lambda>xs. xs) = Some (out, 0)
     \<and> out =
         concat (map (\<lambda>s. show_int (int (isqrt (nat (sint s)))) @ [CHR 0x0A]) sols)
         @ [CHR 0x0A] @ show_int (\<Sum>n \<in> set sols. sint n) @ [CHR 0x0A]
     \<and> lines_of out =
         map (\<lambda>s. show_int (int (isqrt (nat (sint s))))) sols
         @ [[], show_int (\<Sum>n \<in> set sols. sint n)])
   \<and> show_int 102 = ''102'' \<and> show_int 124657 = ''124657'' \<and> read_int ''124657'' = 124657
   \<and> lines_of (''3'' @ [CHR 0x0A] @ ''102'' @ [CHR 0x0A] @ [CHR 0x0A] @ ''10413'' @ [CHR 0x0A])
       = [''3'', ''102'', [], ''10413'']"
proof -
  have a: "\<exists>sols out. outer_loop 10000 1000000000000 1 [] = Some sols
     \<and> distinct sols
     \<and> main (\<lambda>xs. xs) = Some (out, 0)
     \<and> out =
         concat (map (\<lambda>s. show_int (int (isqrt (nat (sint s)))) @ [CHR 0x0A]) sols)
         @ [CHR 0x0A] @ show_int (\<Sum>n \<in> set sols. sint n) @ [CHR 0x0A]
     \<and> lines_of out =
         map (\<lambda>s. show_int (int (isqrt (nat (sint s))))) sols
         @ [[], show_int (\<Sum>n \<in> set sols. sint n)]"
    using main_output [of "\<lambda>xs. xs"] by simp blast
  have b: "read_int ''124657'' = 124657"
    using main_output [of "\<lambda>xs. xs"] show_int_examples(3) by (metis (no_types, lifting))
  have c: "lines_of (''3'' @ [CHR 0x0A] @ ''102'' @ [CHR 0x0A] @ [CHR 0x0A] @ ''10413'' @ [CHR 0x0A])
       = [''3'', ''102'', [], ''10413'']"
    by simp
  from a b c show_int_examples(2,3) show ?thesis by blast
qed

text \<open>
  Claim C10, as stated, fails where the products leave the 64-bit range: for
  \<open>a = b = 2\<^sup>3\<^sup>2\<close> and \<open>c = 1\<close> the candidate wraps around to 0.
\<close>

theorem large_a_counterexample:
  "10000 \<le> sint (4294967296 :: i64) \<and> 1 \<le> sint (4294967296 :: i64) \<and> 1 \<le> sint (1 :: i64)
   \<and> sint (compute_candidate 4294967296 4294967296 1) = 0
   \<and> \<not> (1000000000000 \<le>s compute_candidate 4294967296 4294967296 1)"
  by (simp add: compute_candidate_def word_sle_eq)

text \<open>
  Claim C10, amended. For \<open>a \<ge> 10\<^sup>4\<close>, \<open>b \<ge> 1\<close> and \<open>c \<ge> 1\<close> the formula \<open>c\<^sup>2a\<^sup>3b + cb\<^sup>2\<close> is at
  least \<open>10\<^sup>1\<^sup>2\<close>, and so is \<open>compute_candidate a b c\<close> when the formula is below \<open>2\<^sup>6\<^sup>3\<close>.
  So the limit \<open>a < 10000\<close> loses nothing: the enumeration returns exactly the perfect
  squares below \<open>10\<^sup>1\<^sup>2\<close> of the form \<open>c\<^sup>2a\<^sup>3b + cb\<^sup>2\<close> with \<open>a > b \<ge> 1\<close>, \<open>c \<ge> 1\<close> and no bound
  on \<open>a\<close>.
\<close>

theorem enumeration_complete:
  assumes "10000 \<le> a" "1 \<le> b" "1 \<le> c" "candidate_value a b c < 2 ^ 63"
  shows "1000000000000 \<le> candidate_value a b c
    \<and> 1000000000000 \<le>s compute_candidate (word_of_int a) (word_of_int b) (word_of_int c)
    \<and> (\<exists>sols. outer_loop 10000 1000000000000 1 [] = Some sols
          \<and> sint ` set sols =
              {n. \<exists>a b c. 1 \<le> b \<and> b < a \<and> 1 \<le> c \<and> n = candidate_value a b c
                    \<and> n < 1000000000000 \<and> (\<exists>k. n = k * k)})"
proof (intro conjI)
  have cube: "1000000000000 \<le> x * x * x" if "10000 \<le> x" for x :: int
  proof -
    have "10000 * 10000 \<le> x * x" using that by (intro mult_mono) simp_all
    then have "10000 * 10000 * 10000 \<le> x * x * x" using that by (intro mult_mono) simp_all
    then show ?thesis by simp
  qed
  have a1: "1 \<le> a" using assms(1) by simp
  have "a * a * a \<le> candidate_value a b c"
    using a1 assms(2,3) by (rule candidate_value_ge_cube)
  with cube [OF assms(1)] show big: "1000000000000 \<le> candidate_value a b c" by simp
  have "sint (compute_candidate (word_of_int a) (word_of_int b) (word_of_int c))
      = candidate_value a b c"
    using a1 assms(2-4) by (rule compute_candidate_exact)
  with big show "1000000000000 \<le>s compute_candidate (word_of_int a) (word_of_int b) (word_of_int c)"
    by (simp add: word_sle_eq)
  from main_enumeration obtain sols where
    run: "outer_loop 10000 1000000000000 1 [] = Some sols"
    and img: "sint ` set sols =
         {n. \<exists>a b c. 1 \<le> b \<and> b < a \<and> a < 10000 \<and> 1 \<le> c \<and> n = candidate_value a b c
               \<and> n < 1000000000000 \<and> perfect_square n}"
    by blast
  have "{n. \<exists>a b c. 1 \<le> b \<and> b < a \<and> a < 10000 \<and> 1 \<le> c \<and> n = candidate_value a b c
               \<and> n < 1000000000000 \<and> perfect_square n}
      = {n. \<exists>a b c. 1 \<le> b \<and> b < a \<and> 1 \<le> c \<and> n = candidate_value a b c
                    \<and> n < 1000000000000 \<and> (\<exists>k. n = k * k)}"
    (is "?A = ?B")
  proof (intro set_eqI iffI)
    fix n assume "n \<in> ?A"
    then show "n \<in> ?B" unfolding perfect_square_iff by blast
  next
    fix n assume "n \<in> ?B"
    then obtain x y z where h: "1 \<le> y" "y < x" "1 \<le> z" "n = candidate_value x y z"
        "n < 1000000000000" "perfect_square n"
      unfolding perfect_square_iff by blast
    have "x < 10000"
    proof (rule ccontr)
      assume "\<not> x < 10000"
      then have x: "10000 \<le> x" by simp
      then have "1 \<le> x" by simp
      then have "x * x * x \<le> candidate_value x y z"
        using h(1,3) by (rule candidate_value_ge_cube)
      with cube [OF x] h(4,5) show False by simp
    qed
    with h have "1 \<le> y \<and> y < x \<and> x < 10000 \<and> 1 \<le> z \<and> n = candidate_value x y z
        \<and> n < 1000000000000 \<and> perfect_square n" by simp
    then show "n \<in> ?A" by blast
  qed
  with run img show "\<exists>sols. outer_loop 10000 1000000000000 1 [] = Some sols
      \<and> sint ` set sols =
          {n. \<exists>a b c. 1 \<le> b \<and> b < a \<and> 1 \<le> c \<and> n = candidate_value a b c
                \<and> n < 1000000000000 \<and> (\<exists>k. n = k * k)}"
    by auto
qed

theorem enumeration_complete_witness:
  "(1000000000000 :: int) \<le> candidate_value 10000 1 1
    \<and> 1000000000000 \<le>s compute_candidate 10000 1 1
    \<and> (\<exists>sols. outer_loop 10000 1000000000000 1 [] = Some sols
          \<and> sint ` set sols =
              {n. \<exists>a b c. 1 \<le> b \<and> b < a \<and> 1 \<le> c \<and> n = candidate_value a b c
                    \<and> n < 1000000000000 \<and> (\<exists>k. n = k * k)})"
proof -
  have v: "candidate_value 10000 1 1 = 1000000000001" by (simp add: candidate_value_def)
  show ?thesis
    using enumeration_complete [of 10000 1 1] by (simp add: v)
qed

end
